theory Spec2Isabelle
  imports Complex_Main "HOL-Library.AList"
begin

section \<open>Python values shared by the scripts\<close>

text \<open>
  The scripts \<^verbatim>\<open>scripts/rocAnalysis.py\<close> and \<^verbatim>\<open>scripts/nicola.py\<close> are Python 2.
  Exceptions are values of \<open>py_error\<close>; a computation that may raise returns
  \<open>py_error + 'a\<close> with \<open>Inl\<close> for the exception.
\<close>

datatype py_error = IndexError | KeyError | ZeroDivisionError | OverflowError | ValueError

text \<open>\<^verbatim>\<open>xs[i]\<close> for a non-negative literal index \<open>i\<close>.\<close>

definition py_index :: "'a list \<Rightarrow> nat \<Rightarrow> py_error + 'a" where
  "py_index xs i = (if i < length xs then Inr (xs ! i) else Inl IndexError)"

text \<open>
  \<^verbatim>\<open>s.split(c)\<close> for a separator of one character: every occurrence of the separator
  ends a field, empty fields are kept, and the empty string gives one empty field.
\<close>

fun split_on :: "char \<Rightarrow> string \<Rightarrow> string list" where
  "split_on c [] = [] # []"
| "split_on c (x # xs) =
     (if x = c then [] # split_on c xs
      else (case split_on c xs of [] \<Rightarrow> [x] # [] | w # ws \<Rightarrow> (x # w) # ws))"

text \<open>
  A dictionary is an association list with distinct keys, in insertion order:
  \<^verbatim>\<open>d[k]\<close> is \<open>dict_get\<close> (\<open>None\<close> where Python raises KeyError), \<^verbatim>\<open>d[k] = v\<close> is
  \<open>dict_set\<close>.
\<close>

type_synonym ('k, 'v) dict = "('k \<times> 'v) list"

definition dict_get :: "('k, 'v) dict \<Rightarrow> 'k \<Rightarrow> 'v option" where
  "dict_get d k = map_of d k"

definition dict_set :: "('k, 'v) dict \<Rightarrow> 'k \<Rightarrow> 'v \<Rightarrow> ('k, 'v) dict" where
  "dict_set d k v = AList.update k v d"

section \<open>BLAST records\<close>

text \<open>
  The records come from \<^verbatim>\<open>dark.conversion.JSONRecordsReader\<close>, a library outside this
  repository. The scripts read \<^verbatim>\<open>record.query\<close>, \<^verbatim>\<open>record.alignments\<close>,
  \<^verbatim>\<open>alignment.hsps\<close>, and of a high-scoring pair \<^verbatim>\<open>bits\<close>, \<^verbatim>\<open>query\<close> and
  \<^verbatim>\<open>sbjct\<close>. The field \<^verbatim>\<open>query\<close> of a high-scoring pair is \<open>hsp_query\<close> here, since the
  record has a field of that name too. A bit score is a number of the JSON file.
\<close>

record hsp =
  bits :: rat
  hsp_query :: string
  sbjct :: string

record alignment =
  hsps :: "hsp list"

record blast_record =
  query :: string
  alignments :: "alignment list"

section \<open>rocAnalysis.countHits\<close>

definition readsPerLevel_init :: "(string, int) dict" where
  "readsPerLevel_init =
     [(''100'', 0), (''99'', 0), (''95'', 0), (''90'', 0), (''85'', 0), (''80'', 0), (''75'', 0),
      (''70'', 0), (''65'', 0), (''60'', 0), (''55'', 0), (''50'', 0), (''45'', 0), (''40'', 0),
      (''35'', 0), (''30'', 0), (''25'', 0), (''20'', 0), (''15'', 0), (''10'', 0), (''5'', 0),
      (''0'', 0)]"

text \<open>
  The body of the loop over the records, lines 43 to 51: the level is read from the query
  before the \<^verbatim>\<open>try\<close>, the \<^verbatim>\<open>try\<close> covers \<^verbatim>\<open>record.alignments[0]\<close> only, and
  \<^verbatim>\<open>readsPerLevel[level] += 1\<close> reads the count before it writes it.
\<close>

definition countHits_record ::
    "rat \<Rightarrow> (string, int) dict \<Rightarrow> blast_record \<Rightarrow> py_error + (string, int) dict" where
  "countHits_record cutoff readsPerLevel record =
     (case py_index (split_on CHR ''|'' (query record)) 2 of
        Inl e \<Rightarrow> Inl e
      | Inr level \<Rightarrow>
         (case py_index (alignments record) 0 of
            Inl IndexError \<Rightarrow> Inr readsPerLevel
          | Inl e \<Rightarrow> Inl e
          | Inr alignment \<Rightarrow>
             (case py_index (hsps alignment) 0 of
                Inl e \<Rightarrow> Inl e
              | Inr h \<Rightarrow>
                 if bits h > cutoff then
                   (case dict_get readsPerLevel level of
                      None \<Rightarrow> Inl KeyError
                    | Some n \<Rightarrow> Inr (dict_set readsPerLevel level (n + 1)))
                 else Inr readsPerLevel)))"

fun countHits_loop ::
    "rat \<Rightarrow> (string, int) dict \<Rightarrow> blast_record list \<Rightarrow> py_error + (string, int) dict" where
  "countHits_loop cutoff readsPerLevel [] = Inr readsPerLevel"
| "countHits_loop cutoff readsPerLevel (record # records) =
     (case countHits_record cutoff readsPerLevel record of
        Inl e \<Rightarrow> Inl e
      | Inr readsPerLevel' \<Rightarrow> countHits_loop cutoff readsPerLevel' records)"

text \<open>
  \<open>countHits blastFile records cutoff\<close>: \<open>records\<close> is what \<^verbatim>\<open>_records(blastFile)\<close>
  yields. The title is taken from the file name before the first record is read.
\<close>

definition countHits ::
    "string \<Rightarrow> blast_record list \<Rightarrow> rat \<Rightarrow> py_error + (string \<times> (string, int) dict)" where
  "countHits blastFile records cutoff =
     (case py_index (split_on CHR ''.'' blastFile) 2 of
        Inl e \<Rightarrow> Inl e
      | Inr t \<Rightarrow>
         (case py_index (split_on CHR ''/'' t) 4 of
            Inl e \<Rightarrow> Inl e
          | Inr title \<Rightarrow>
             (case countHits_loop cutoff readsPerLevel_init records of
                Inl e \<Rightarrow> Inl e
              | Inr readsPerLevel \<Rightarrow> Inr (title, readsPerLevel))))"

section \<open>Python floats\<close>

text \<open>
  A Python float is an IEEE 754 binary64 number. A finite float is modelled as the rational
  number it denotes; the sign of a zero is not kept. An arithmetic operation on floats
  computes the exact result and rounds it with \<open>fl\<close> to the nearest number with 53
  significant bits, ties to the even significand. The exponent is not bounded here, so two
  things are outside the model: a result of magnitude \<open>2 ^ 1024\<close> or more, which binary64
  turns into an infinity, and a nonzero result below \<open>2 ^ - 1022\<close>, which binary64 rounds
  more coarsely. Neither arises in \<^verbatim>\<open>calculateFrequencies\<close>, where a divisor is an integer
  from 594 to 13068 and a dividend an integer, nor in \<^verbatim>\<open>computePercentId\<close> for the lengths
  that Python strings have, nor in \<^verbatim>\<open>areaUnderCurve\<close> on the rates of counts from 0 to
  \<open>2 ^ 400\<close>. \<open>py_float\<close>, the conversion of an integer, raises OverflowError as Python
  does when the rounded value is \<open>2 ^ 1024\<close> or more in magnitude, which is when its
  exponent \<open>ilog2\<close> is 1024 or more.
\<close>

fun bit_length :: "nat \<Rightarrow> nat" where
  "bit_length n = (if n = 0 then 0 else Suc (bit_length (n div 2)))"

declare bit_length.simps [simp del]

definition pow2 :: "int \<Rightarrow> rat" where
  "pow2 e = (if 0 \<le> e then 2 ^ nat e else 1 / 2 ^ nat (- e))"

text \<open>\<open>ilog2 x\<close> is the exponent \<open>e\<close> with \<open>2 ^ e \<le> x < 2 ^ (e + 1)\<close>, for \<open>0 < x\<close>.\<close>

definition ilog2 :: "rat \<Rightarrow> int" where
  "ilog2 x = (if 1 \<le> x then int (bit_length (nat \<lfloor>x\<rfloor>)) - 1
              else - int (bit_length (nat (\<lceil>1 / x\<rceil> - 1))))"

definition round_half_even :: "rat \<Rightarrow> int" where
  "round_half_even x =
     (let n = \<lfloor>x\<rfloor>; r = x - of_int n
      in if r < 1 / 2 then n else if 1 / 2 < r then n + 1 else if even n then n else n + 1)"

definition fl :: "rat \<Rightarrow> rat" where
  "fl x = (if x = 0 then 0
           else (let e = ilog2 \<bar>x\<bar> - 52 in of_int (round_half_even (x / pow2 e)) * pow2 e))"

text \<open>\<^verbatim>\<open>float(n)\<close> for an integer \<open>n\<close>.\<close>

definition py_float :: "int \<Rightarrow> py_error + rat" where
  "py_float n =
     (let x = fl (of_int n) in if x \<noteq> 0 \<and> 1024 \<le> ilog2 \<bar>x\<bar> then Inl OverflowError else Inr x)"

text \<open>\<^verbatim>\<open>a / b\<close> for floats \<open>a\<close> and \<open>b\<close>.\<close>

definition py_truediv :: "rat \<Rightarrow> rat \<Rightarrow> py_error + rat" where
  "py_truediv a b = (if b = 0 then Inl ZeroDivisionError else Inr (fl (a / b)))"

section \<open>rocAnalysis.calculateFrequencies\<close>

text \<open>
  A loop that appends one value for each element of a list, and stops at the first
  exception.
\<close>

fun collect :: "('a \<Rightarrow> py_error + 'b) \<Rightarrow> 'a list \<Rightarrow> py_error + 'b list" where
  "collect f [] = Inr []"
| "collect f (x # xs) =
     (case f x of
        Inl e \<Rightarrow> Inl e
      | Inr y \<Rightarrow> (case collect f xs of Inl e \<Rightarrow> Inl e | Inr ys \<Rightarrow> Inr (y # ys)))"

text \<open>\<^verbatim>\<open>str(n)\<close> for an integer \<open>n\<close> that is not negative.\<close>

fun py_str :: "nat \<Rightarrow> string" where
  "py_str n = (if n < 10 then [''0123456789'' ! n]
               else py_str (n div 10) @ [''0123456789'' ! (n mod 10)])"

declare py_str.simps [simp del]

definition levels :: "nat list" where
  "levels = [100, 99, 95, 90, 85, 80, 75, 70, 65, 60, 55, 50, 45, 40, 35, 30, 25, 20, 15, 10, 5, 0]"

text \<open>Lines 73 to 76: the counts of one scoring scheme as a list, in the order of the levels.\<close>

definition levelCounts :: "(string, int) dict \<Rightarrow> py_error + int list" where
  "levelCounts table =
     collect (\<lambda>nr. case dict_get table (py_str nr) of None \<Rightarrow> Inl KeyError | Some c \<Rightarrow> Inr c)
       levels"

record scheme_frequencies =
  fprs :: "rat list"
  tprs :: "rat list"
  spcs :: "rat list"
  tps :: "int list"
  tns :: "int list"
  fps :: "int list"
  fns :: "int list"
  raw :: "int list"

text \<open>What one pass of the loop appends to the seven lists.\<close>

record frequency_row =
  row_fpr :: rat
  row_tpr :: rat
  row_spc :: rat
  row_tp :: int
  row_tn :: int
  row_fp :: int
  row_fn :: int

text \<open>
  Lines 91 to 101, the body of the loop over \<^verbatim>\<open>enumerate(res)\<close>. Only the
  ZeroDivisionError of the two divisions in the \<^verbatim>\<open>try\<close> is caught; it sets both rates
  to 0.
\<close>

definition frequencies_at :: "int list \<Rightarrow> nat \<Rightarrow> py_error + frequency_row" where
  "frequencies_at res i =
     (let tp = sum_list (take (i + 1) res);
          fp = sum_list (drop (i + 1) res);
          fn = 594 * (int i + 1) - tp;
          tn = 594 * (22 - (int i + 1)) - fp
      in case py_float tp of Inl e \<Rightarrow> Inl e | Inr ftp \<Rightarrow>
         (case py_float (tp + fn) of Inl e \<Rightarrow> Inl e | Inr fpos \<Rightarrow>
         (case py_truediv ftp fpos of Inl e \<Rightarrow> Inl e | Inr tpr \<Rightarrow>
         (case
            (case py_float fp of Inl e \<Rightarrow> Inl e | Inr ffp \<Rightarrow>
            (case py_float (fp + tn) of Inl e \<Rightarrow> Inl e | Inr fneg \<Rightarrow>
            (case py_truediv ffp fneg of Inl e \<Rightarrow> Inl e | Inr fpr \<Rightarrow>
            (case py_float tn of Inl e \<Rightarrow> Inl e | Inr ftn \<Rightarrow>
            (case py_float (fp + tn) of Inl e \<Rightarrow> Inl e | Inr fneg' \<Rightarrow>
            (case py_truediv ftn fneg' of Inl e \<Rightarrow> Inl e | Inr spc \<Rightarrow> Inr (fpr, spc)))))))
          of
            Inl ZeroDivisionError \<Rightarrow>
              Inr \<lparr>row_fpr = 0, row_tpr = tpr, row_spc = 0,
                   row_tp = tp, row_tn = tn, row_fp = fp, row_fn = fn\<rparr>
          | Inl e \<Rightarrow> Inl e
          | Inr (fpr, spc) \<Rightarrow>
              Inr \<lparr>row_fpr = fpr, row_tpr = tpr, row_spc = spc,
                   row_tp = tp, row_tn = tn, row_fp = fp, row_fn = fn\<rparr>))))"

text \<open>Lines 82 to 112: the eight lists of one scoring scheme.\<close>

definition schemeFrequencies :: "int list \<Rightarrow> py_error + scheme_frequencies" where
  "schemeFrequencies res =
     (case collect (frequencies_at res) [0..<length res] of
        Inl e \<Rightarrow> Inl e
      | Inr rows \<Rightarrow>
          Inr \<lparr>fprs = map row_fpr rows, tprs = map row_tpr rows, spcs = map row_spc rows,
               tps = map row_tp rows, tns = map row_tn rows, fps = map row_fp rows,
               fns = map row_fn rows, raw = res\<rparr>)"

text \<open>
  The first loop builds \<^verbatim>\<open>listDict\<close> for every scoring scheme before the second loop
  computes the frequencies of any.
\<close>

definition calculateFrequencies ::
    "(string, (string, int) dict) dict \<Rightarrow> py_error + (string, scheme_frequencies) dict" where
  "calculateFrequencies hitDict =
     (case collect (\<lambda>(scoringScheme, table).
               case levelCounts table of Inl e \<Rightarrow> Inl e | Inr l \<Rightarrow> Inr (scoringScheme, l))
             hitDict of
        Inl e \<Rightarrow> Inl e
      | Inr listDict \<Rightarrow>
          collect (\<lambda>(scoringScheme, res).
               case schemeFrequencies res of
                 Inl e \<Rightarrow> Inl e
               | Inr f \<Rightarrow> Inr (scoringScheme, f))
            listDict)"

section \<open>rocAnalysis.areaUnderCurve\<close>

text \<open>
  \<^verbatim>\<open>areaUnderCurve\<close> changes list objects, so the lists are kept in a store: the heap is
  the list of all list objects and a reference is an index into it, below its length. The
  function changes no dictionary, so a dictionary stays a value, and the entries of an inner
  dictionary hold references to lists. \<^verbatim>\<open>copy.copy(frequencies)\<close> makes a new outer
  dictionary with the entries of the old one: its inner dictionaries are the caller's, and so
  are the lists that they refer to. As a value the copy is \<open>frequencies\<close>.
\<close>

type_synonym ref = nat

type_synonym heap = "rat list list"

text \<open>\<^verbatim>\<open>x.append(v)\<close> and \<^verbatim>\<open>x.insert(0, v)\<close> for the list object at \<open>x\<close>.\<close>

definition py_append :: "heap \<Rightarrow> ref \<Rightarrow> rat \<Rightarrow> heap" where
  "py_append h x v = h[x := h ! x @ [v]]"

definition py_insert0 :: "heap \<Rightarrow> ref \<Rightarrow> rat \<Rightarrow> heap" where
  "py_insert0 h x v = h[x := v # h ! x]"

text \<open>
  Lines 187 to 196, the body of the loop over the scoring schemes. \<open>integrate_trapz\<close> stands
  for \<^verbatim>\<open>scipy.integrate.trapz\<close>, a library function outside this repository, called
  with the contents of \<open>y\<close> and \<open>x\<close>. The result is the heap after the pass and the value
  stored in \<^verbatim>\<open>integrated\<close>, or the exception raised.
\<close>

definition areaUnderCurve_scheme ::
    "(rat list \<Rightarrow> rat list \<Rightarrow> py_error + rat) \<Rightarrow> heap \<Rightarrow> (string, ref) dict
       \<Rightarrow> heap \<times> (py_error + rat)" where
  "areaUnderCurve_scheme integrate_trapz h d =
     (case dict_get d ''fprs'' of
        None \<Rightarrow> (h, Inl KeyError)
      | Some x \<Rightarrow>
         (case dict_get d ''tprs'' of
            None \<Rightarrow> (h, Inl KeyError)
          | Some y \<Rightarrow>
             (let h1 = py_append h x 0;
                  h2 = py_append h1 y 0;
                  h3 = py_insert0 h2 x 1;
                  h4 = py_insert0 h3 y 1
              in (h4, case integrate_trapz (h4 ! y) (h4 ! x) of
                        Inl e \<Rightarrow> Inl e
                      | Inr y_int \<Rightarrow> Inr (fl (y_int * - 1))))))"

fun areaUnderCurve_loop ::
    "(rat list \<Rightarrow> rat list \<Rightarrow> py_error + rat) \<Rightarrow> heap \<Rightarrow> (string, (string, ref) dict) dict
       \<Rightarrow> (string, rat) dict \<Rightarrow> heap \<times> (py_error + (string, rat) dict)" where
  "areaUnderCurve_loop integrate_trapz h [] integrated = (h, Inr integrated)"
| "areaUnderCurve_loop integrate_trapz h ((scoringScheme, d) # freqs) integrated =
     (case areaUnderCurve_scheme integrate_trapz h d of
        (h', Inl e) \<Rightarrow> (h', Inl e)
      | (h', Inr area) \<Rightarrow>
          areaUnderCurve_loop integrate_trapz h' freqs (dict_set integrated scoringScheme area))"

definition areaUnderCurve ::
    "(rat list \<Rightarrow> rat list \<Rightarrow> py_error + rat) \<Rightarrow> heap \<Rightarrow> (string, (string, ref) dict) dict
       \<Rightarrow> heap \<times> (py_error + (string, rat) dict)" where
  "areaUnderCurve integrate_trapz h frequencies =
     (let freqs = frequencies in areaUnderCurve_loop integrate_trapz h freqs [])"

text \<open>
  Modelled from the spec: \<^verbatim>\<open>scipy.integrate.trapz\<close> is not part of the repository. The spec
  has it integrate \<open>y\<close> over \<open>x\<close> by the trapezoidal rule, which for sample points is the sum of
  \<open>(x[i+1] - x[i]) * (y[i+1] + y[i]) / 2\<close>. Each operation is a float operation, and the
  terms are added from left to right. Vectors of different lengths are rejected.
\<close>

fun trapz_terms :: "rat list \<Rightarrow> rat list \<Rightarrow> rat list" where
  "trapz_terms (y0 # y1 # ys) (x0 # x1 # xs) =
     fl (fl (fl (x1 - x0) * fl (y1 + y0)) / 2) # trapz_terms (y1 # ys) (x1 # xs)"
| "trapz_terms ys xs = []"

definition trapz :: "rat list \<Rightarrow> rat list \<Rightarrow> py_error + rat" where
  "trapz y x =
     (if length y \<noteq> length x then Inl ValueError
      else Inr (foldl (\<lambda>s t. fl (s + t)) 0 (trapz_terms y x)))"

text \<open>
  What \<open>calculateFrequencies\<close> returns, as objects in the store. The lists of a scoring
  scheme are created in lines 82 to 88 and 73, each a list object of its own, and the inner
  dictionary of lines 110 to 112 refers to them. \<open>new_frequencies h frequencies\<close> puts the
  lists behind the objects of \<open>h\<close>; integers are stored as the numbers they are.
\<close>

definition scheme_lists :: "scheme_frequencies \<Rightarrow> rat list list" where
  "scheme_lists f =
     [fprs f, tprs f, spcs f, map of_int (tps f), map of_int (tns f), map of_int (fps f),
      map of_int (fns f), map of_int (raw f)]"

definition scheme_objects :: "ref \<Rightarrow> (string, ref) dict" where
  "scheme_objects r =
     [(''fprs'', r), (''tprs'', r + 1), (''spcs'', r + 2), (''tps'', r + 3), (''tns'', r + 4),
      (''fps'', r + 5), (''fns'', r + 6), (''raw'', r + 7)]"

fun new_frequencies ::
    "heap \<Rightarrow> (string, scheme_frequencies) dict \<Rightarrow> heap \<times> (string, (string, ref) dict) dict" where
  "new_frequencies h [] = (h, [])"
| "new_frequencies h ((scoringScheme, f) # frequencies) =
     (case new_frequencies (h @ scheme_lists f) frequencies of
        (h', objects) \<Rightarrow> (h', (scoringScheme, scheme_objects (length h)) # objects))"

section \<open>nicola.computePercentId\<close>

text \<open>Lines 346 to 347: the loop over \<^verbatim>\<open>zip(query, sbjct)\<close>.\<close>

fun count_identical :: "(char \<times> char) list \<Rightarrow> int \<Rightarrow> int" where
  "count_identical [] identical = identical"
| "count_identical ((queryBase, subjectBase) # bases) identical =
     count_identical bases (identical + (if queryBase = subjectBase then 1 else 0))"

text \<open>
  In \<^verbatim>\<open>identical / float(length) * 100\<close> the length is converted first, the division
  converts \<^verbatim>\<open>identical\<close> to a float, and the product with 100 is rounded again.
\<close>

definition computePercentId :: "alignment \<Rightarrow> py_error + rat" where
  "computePercentId alignment =
     (case py_index (hsps alignment) 0 of
        Inl e \<Rightarrow> Inl e
      | Inr h \<Rightarrow>
         (case py_index (hsps alignment) 0 of
            Inl e \<Rightarrow> Inl e
          | Inr h' \<Rightarrow>
             (let identical = count_identical (zip (hsp_query h) (sbjct h')) 0
              in case py_float (int (length (hsp_query h))) of
                   Inl e \<Rightarrow> Inl e
                 | Inr flength \<Rightarrow>
                    (case py_float identical of
                       Inl e \<Rightarrow> Inl e
                     | Inr fidentical \<Rightarrow>
                        (case py_truediv fidentical flength of
                           Inl e \<Rightarrow> Inl e
                         | Inr ratio \<Rightarrow> Inr (fl (ratio * 100)))))))"

section \<open>Properties of countHits\<close>

lemma split_on_nonempty: "split_on c s \<noteq> []"
  by (induction s) (auto split: list.splits)

lemma split_on_no_sep: "w \<in> set (split_on c s) \<Longrightarrow> c \<notin> set w"
proof (induction s arbitrary: w)
  case Nil
  then show ?case by simp
next
  case (Cons x xs)
  show ?case
  proof (cases "x = c")
    case True
    with Cons show ?thesis by auto
  next
    case False
    obtain v vs where vs: "split_on c xs = v # vs"
      using split_on_nonempty [of c xs] by (cases "split_on c xs") auto
    with False Cons.prems have "w = x # v \<or> w \<in> set vs" by auto
    then show ?thesis
    proof
      assume "w = x # v"
      moreover have "c \<notin> set v" using Cons.IH [of v] vs by simp
      ultimately show ?thesis using False by auto
    next
      assume "w \<in> set vs"
      then show ?thesis using Cons.IH [of w] vs by simp
    qed
  qed
qed

lemma split_on_length: "length (split_on c s) = Suc (length (filter (\<lambda>x. x = c) s))"
proof (induction s)
  case Nil
  then show ?case by simp
next
  case (Cons x xs)
  obtain v vs where vs: "split_on c xs = v # vs"
    using split_on_nonempty [of c xs] by (cases "split_on c xs") auto
  with Cons show ?case by auto
qed

lemma split_on_absent: "c \<notin> set s \<Longrightarrow> split_on c s = [s]"
  by (induction s) auto

lemma countHits_loop_append:
  "countHits_loop c tbl (xs @ ys) =
     (case countHits_loop c tbl xs of Inl e \<Rightarrow> Inl e | Inr t \<Rightarrow> countHits_loop c t ys)"
  by (induction xs arbitrary: tbl) (auto split: sum.splits)

lemma dict_set_keys: "dict_get d k = Some n \<Longrightarrow> map fst (dict_set d k v) = map fst d"
  by (auto simp: dict_get_def dict_set_def update_keys dest: map_of_SomeD intro: rev_image_eqI)

lemma dict_get_set: "dict_get (dict_set d k v) k' = (if k' = k then Some v else dict_get d k')"
  by (simp add: dict_get_def dict_set_def update_conv')

lemma dict_set_values: "set (dict_set d k v) \<subseteq> insert (k, v) (set d)"
  unfolding dict_set_def by (induction d) auto

lemma dict_get_mem: "dict_get d k = Some n \<Longrightarrow> (k, n) \<in> set d"
  by (simp add: dict_get_def map_of_SomeD)

lemma countHits_record_keys:
  "countHits_record c tbl r = Inr tbl' \<Longrightarrow> map fst tbl' = map fst tbl"
  by (auto simp: countHits_record_def dict_set_keys split: sum.splits py_error.splits if_splits option.splits)

lemma countHits_record_nonneg:
  assumes "countHits_record c tbl r = Inr tbl'" and "\<forall>(k, v) \<in> set tbl. 0 \<le> v"
  shows "\<forall>(k, v) \<in> set tbl'. 0 \<le> v"
proof -
  have "tbl' = tbl \<or> (\<exists>k n. dict_get tbl k = Some n \<and> tbl' = dict_set tbl k (n + 1))"
    using assms(1)
    by (auto simp: countHits_record_def split: sum.splits py_error.splits if_splits option.splits)
  then show ?thesis
  proof
    assume "tbl' = tbl"
    with assms(2) show ?thesis by simp
  next
    assume "\<exists>k n. dict_get tbl k = Some n \<and> tbl' = dict_set tbl k (n + 1)"
    then obtain k n where kn: "dict_get tbl k = Some n" "tbl' = dict_set tbl k (n + 1)" by blast
    from kn(1) assms(2) have "0 \<le> n" by (auto dest: dict_get_mem)
    with kn(2) assms(2) dict_set_values [of tbl k "n + 1"] show ?thesis by auto
  qed
qed

lemma countHits_loop_inv:
  "countHits_loop c tbl rs = Inr tbl' \<Longrightarrow> \<forall>(k, v) \<in> set tbl. 0 \<le> v \<Longrightarrow>
     map fst tbl' = map fst tbl \<and> (\<forall>(k, v) \<in> set tbl'. 0 \<le> v)"
proof (induction rs arbitrary: tbl)
  case Nil
  then show ?case by simp
next
  case (Cons r rs)
  from Cons.prems(1) obtain t where t: "countHits_record c tbl r = Inr t"
    and l: "countHits_loop c t rs = Inr tbl'"
    by (auto split: sum.splits)
  from t Cons.prems(2) have "\<forall>(k, v) \<in> set t. 0 \<le> v" by (rule countHits_record_nonneg)
  with Cons.IH [OF l] countHits_record_keys [OF t] show ?case by simp
qed

lemma countHits_Inr:
  "countHits f rs c = Inr (title, tbl) \<longleftrightarrow>
     (\<exists>t. py_index (split_on CHR ''.'' f) 2 = Inr t \<and> py_index (split_on CHR ''/'' t) 4 = Inr title)
     \<and> countHits_loop c readsPerLevel_init rs = Inr tbl"
  by (auto simp: countHits_def split: sum.splits)

text \<open>
  Claim C8. Whatever the records and the cutoff, a table that \<open>countHits\<close> returns has the 22
  identity levels as its keys, each once, with counts that are not negative; with no record
  at all every count is 0.
\<close>
theorem countHits_table:
  assumes "countHits blastFile records cutoff = Inr (title, tbl)"
  shows "map fst tbl =
           [''100'', ''99'', ''95'', ''90'', ''85'', ''80'', ''75'', ''70'', ''65'', ''60'', ''55'',
            ''50'', ''45'', ''40'', ''35'', ''30'', ''25'', ''20'', ''15'', ''10'', ''5'', ''0'']
         \<and> distinct (map fst tbl) \<and> (\<forall>(k, v) \<in> set tbl. 0 \<le> v)
         \<and> (records = [] \<longrightarrow> (\<forall>(k, v) \<in> set tbl. v = 0))"
proof -
  from assms have l: "countHits_loop cutoff readsPerLevel_init records = Inr tbl"
    by (simp add: countHits_Inr)
  have z: "\<forall>(k, v) \<in> set readsPerLevel_init. 0 \<le> v"
    by (simp add: readsPerLevel_init_def)
  from countHits_loop_inv [OF l z]
  have k: "map fst tbl = map fst readsPerLevel_init" and n: "\<forall>(k, v) \<in> set tbl. 0 \<le> v"
    by simp_all
  have e: "records = [] \<longrightarrow> (\<forall>(k, v) \<in> set tbl. v = 0)"
    using l by (auto simp: readsPerLevel_init_def)
  from k have k': "map fst tbl =
           [''100'', ''99'', ''95'', ''90'', ''85'', ''80'', ''75'', ''70'', ''65'', ''60'', ''55'',
            ''50'', ''45'', ''40'', ''35'', ''30'', ''25'', ''20'', ''15'', ''10'', ''5'', ''0'']"
    by (simp add: readsPerLevel_init_def)
  have d: "distinct (map fst tbl)" unfolding k' by simp
  from k' d n e show ?thesis by blast
qed

lemma split_on_subset: "w \<in> set (split_on c s) \<Longrightarrow> set w \<subseteq> set s"
proof (induction s arbitrary: w)
  case Nil
  then show ?case by simp
next
  case (Cons x xs)
  obtain v vs where vs: "split_on c xs = v # vs"
    using split_on_nonempty [of c xs] by (cases "split_on c xs") auto
  show ?case
  proof (cases "x = c")
    case True
    with Cons show ?thesis by auto
  next
    case False
    with vs Cons.prems have "w = x # v \<or> w \<in> set vs" by auto
    then show ?thesis
    proof
      assume "w = x # v"
      moreover have "set v \<subseteq> set xs" using Cons.IH [of v] vs by simp
      ultimately show ?thesis by auto
    next
      assume "w \<in> set vs"
      then show ?thesis using Cons.IH [of w] vs by auto
    qed
  qed
qed

text \<open>
  Claim C4, as the code has it. The title that \<open>countHits\<close> returns is cut out of the file
  name by \<open>countHits\<close> itself: it is the fifth field between slashes of the third field
  between dots. So it holds neither a dot nor a slash and is never the file name itself, and
  a file name with fewer than two dots raises IndexError.
\<close>
theorem countHits_title_parsed:
  "(countHits blastFile records cutoff = Inr (title, tbl) \<longrightarrow>
      2 < length (split_on CHR ''.'' blastFile)
      \<and> 4 < length (split_on CHR ''/'' (split_on CHR ''.'' blastFile ! 2))
      \<and> title = split_on CHR ''/'' (split_on CHR ''.'' blastFile ! 2) ! 4
      \<and> CHR ''.'' \<notin> set title \<and> CHR ''/'' \<notin> set title \<and> title \<noteq> blastFile)
   \<and> (length (filter (\<lambda>x. x = CHR ''.'') blastFile) < 2 \<longrightarrow>
        countHits blastFile records cutoff = Inl IndexError)"
proof (intro conjI impI)
  assume "length (filter (\<lambda>x. x = CHR ''.'') blastFile) < 2"
  then show "countHits blastFile records cutoff = Inl IndexError"
    by (simp add: countHits_def py_index_def split_on_length)
next
  assume a: "countHits blastFile records cutoff = Inr (title, tbl)"
  then obtain t where t: "py_index (split_on CHR ''.'' blastFile) 2 = Inr t"
    and ti: "py_index (split_on CHR ''/'' t) 4 = Inr title"
    by (auto simp: countHits_Inr)
  from t show l1: "2 < length (split_on CHR ''.'' blastFile)"
    by (simp add: py_index_def split: if_splits)
  from t have t': "t = split_on CHR ''.'' blastFile ! 2"
    by (simp add: py_index_def split: if_splits)
  from ti t' show l2: "4 < length (split_on CHR ''/'' (split_on CHR ''.'' blastFile ! 2))"
    by (simp add: py_index_def split: if_splits)
  from ti t' show ti': "title = split_on CHR ''/'' (split_on CHR ''.'' blastFile ! 2) ! 4"
    by (simp add: py_index_def split: if_splits)
  from l1 have "t \<in> set (split_on CHR ''.'' blastFile)" unfolding t' by simp
  then have nd: "CHR ''.'' \<notin> set t" by (rule split_on_no_sep)
  from ti have m: "title \<in> set (split_on CHR ''/'' t)"
    by (auto simp: py_index_def split: if_splits)
  then show ns: "CHR ''/'' \<notin> set title" by (rule split_on_no_sep)
  from m have sub: "set title \<subseteq> set t" by (rule split_on_subset)
  with nd show "CHR ''.'' \<notin> set title" by auto
  have "CHR ''.'' \<in> set blastFile"
    using l1 split_on_absent [of "CHR ''.''" blastFile] by (cases "CHR ''.'' \<in> set blastFile") auto
  with \<open>CHR ''.'' \<notin> set title\<close> show "title \<noteq> blastFile" by auto
qed

lemma countHits_snoc:
  assumes "countHits f pre c = Inr (title, tbl)"
  shows "countHits f (pre @ r # post) c =
           (case countHits_record c tbl r of
              Inl e \<Rightarrow> Inl e
            | Inr tbl' \<Rightarrow>
               (case countHits_loop c tbl' post of
                  Inl e \<Rightarrow> Inl e
                | Inr tbl'' \<Rightarrow> Inr (title, tbl'')))"
  using assms
  by (auto simp: countHits_def countHits_loop_append split: sum.splits)

lemma countHits_keys:
  assumes "countHits f rs c = Inr (title, tbl)"
  shows "fst ` set tbl = fst ` set readsPerLevel_init"
proof -
  from assms have l: "countHits_loop c readsPerLevel_init rs = Inr tbl"
    by (simp add: countHits_Inr)
  have "\<forall>(k, v) \<in> set readsPerLevel_init. 0 \<le> v"
    by (simp add: readsPerLevel_init_def)
  from countHits_loop_inv [OF l this] have "map fst tbl = map fst readsPerLevel_init" by simp
  then have "set (map fst tbl) = set (map fst readsPerLevel_init)" by simp
  then show ?thesis by simp
qed

text \<open>
  Claim C7. Let \<open>countHits\<close> have consumed the records \<open>pre\<close> with the table \<open>tbl\<close>, and let
  the query of the next record \<open>r\<close> have a third field \<open>level\<close>. If \<open>r\<close> has no alignments
  the result is unchanged and nothing is raised. If \<open>r\<close> has a first alignment with a first
  high-scoring pair and \<open>level\<close> is one of the 22 levels, the count of \<open>level\<close> goes up by one
  exactly when the score is strictly greater than the cutoff, and no other count changes.
\<close>
theorem countHits_per_record:
  assumes pre: "countHits blastFile pre cutoff = Inr (title, tbl)"
      and lvl: "py_index (split_on CHR ''|'' (query r)) 2 = Inr level"
  shows "(alignments r = [] \<longrightarrow> countHits blastFile (pre @ [r]) cutoff = Inr (title, tbl)) \<and>
         (\<forall>a as h hs. alignments r = a # as \<and> hsps a = h # hs
              \<and> level \<in> fst ` set readsPerLevel_init \<longrightarrow>
            (\<exists>n tbl'. dict_get tbl level = Some n
               \<and> countHits blastFile (pre @ [r]) cutoff = Inr (title, tbl')
               \<and> dict_get tbl' level = Some (if cutoff < bits h then n + 1 else n)
               \<and> (\<forall>k. k \<noteq> level \<longrightarrow> dict_get tbl' k = dict_get tbl k)))"
proof (intro conjI allI impI)
  assume "alignments r = []"
  with lvl have "countHits_record cutoff tbl r = Inr tbl"
    by (simp add: countHits_record_def py_index_def)
  then show "countHits blastFile (pre @ [r]) cutoff = Inr (title, tbl)"
    by (simp add: countHits_snoc [OF pre])
next
  fix a as h hs
  assume a: "alignments r = a # as \<and> hsps a = h # hs \<and> level \<in> fst ` set readsPerLevel_init"
  then have "level \<in> fst ` set tbl" using countHits_keys [OF pre] by simp
  then obtain n where n: "dict_get tbl level = Some n"
    by (cases "map_of tbl level") (auto simp: dict_get_def map_of_eq_None_iff)
  define tbl' where "tbl' = (if cutoff < bits h then dict_set tbl level (n + 1) else tbl)"
  from a lvl n have "countHits_record cutoff tbl r = Inr tbl'"
    by (simp add: countHits_record_def py_index_def tbl'_def)
  then have "countHits blastFile (pre @ [r]) cutoff = Inr (title, tbl')"
    by (simp add: countHits_snoc [OF pre])
  moreover have "dict_get tbl' level = Some (if cutoff < bits h then n + 1 else n)"
    using n by (simp add: tbl'_def dict_get_set)
  moreover have "\<forall>k. k \<noteq> level \<longrightarrow> dict_get tbl' k = dict_get tbl k"
    by (simp add: tbl'_def dict_get_set)
  ultimately show "\<exists>n tbl'. dict_get tbl level = Some n
               \<and> countHits blastFile (pre @ [r]) cutoff = Inr (title, tbl')
               \<and> dict_get tbl' level = Some (if cutoff < bits h then n + 1 else n)
               \<and> (\<forall>k. k \<noteq> level \<longrightarrow> dict_get tbl' k = dict_get tbl k)"
    using n by blast
qed

text \<open>
  Claim C10. A record with a first alignment that has no high-scoring pair is not skipped:
  the loop body raises IndexError for it, and so does \<open>countHits\<close> on every stream that
  reaches this record.
\<close>
theorem countHits_empty_hsps:
  assumes "alignments r = a # as" and "hsps a = []"
  shows "countHits_record cutoff tbl r = Inl IndexError \<and>
         (\<forall>pre post title t. countHits blastFile pre cutoff = Inr (title, t) \<longrightarrow>
            countHits blastFile (pre @ r # post) cutoff = Inl IndexError)"
proof -
  have s: "countHits_record cutoff t r = Inl IndexError" for t
    using assms
    by (simp add: countHits_record_def py_index_def split: sum.splits)
  then show ?thesis
    by (simp add: countHits_snoc)
qed

text \<open>
  Claim C4 as it is stated, that the returned label is the identifier the caller supplied and
  that no path is parsed, fails: a path gives back one of its components, and a plain
  label is rejected.
\<close>
theorem countHits_title_counterexample:
  "countHits ''/home/user/BLAST-1.2.3/runs/a/b/blastn4-545/out.json'' [] 0
     = Inr (''blastn4-545'', readsPerLevel_init)
   \<and> ''blastn4-545'' \<noteq> ''/home/user/BLAST-1.2.3/runs/a/b/blastn4-545/out.json''
   \<and> countHits ''blastn4-545'' [] 0 = Inl IndexError"
  by (simp add: countHits_def py_index_def)

text \<open>
  An instance of C4 as amended: a path with the scheme name in the expected place, and a plain label.
\<close>
theorem countHits_title_parsed_witness:
  "countHits ''/home/user/BLAST-1.2.3/runs/a/b/blastn4-545/out.json'' [] 0
     = Inr (''blastn4-545'', readsPerLevel_init)
   \<and> split_on CHR ''/'' (split_on CHR ''.''
         ''/home/user/BLAST-1.2.3/runs/a/b/blastn4-545/out.json'' ! 2) ! 4 = ''blastn4-545''
   \<and> length (filter (\<lambda>x. x = CHR ''.'') ''blastn4-545'') < 2
   \<and> countHits ''blastn4-545'' [] 0 = Inl IndexError"
proof -
  have h: "countHits ''/home/user/BLAST-1.2.3/runs/a/b/blastn4-545/out.json'' [] 0
     = Inr (''blastn4-545'', readsPerLevel_init)"
    by (simp add: countHits_def py_index_def)
  have d: "length (filter (\<lambda>x. x = CHR ''.'') ''blastn4-545'') < 2" by simp
  from countHits_title_parsed
         [of "''/home/user/BLAST-1.2.3/runs/a/b/blastn4-545/out.json''" "[]" 0
             "''blastn4-545''" readsPerLevel_init] h
  have "split_on CHR ''/'' (split_on CHR ''.''
         ''/home/user/BLAST-1.2.3/runs/a/b/blastn4-545/out.json'' ! 2) ! 4 = ''blastn4-545''"
    by metis
  moreover from countHits_title_parsed [of "''blastn4-545''" "[]" 0 "[]" "[]"] d
  have "countHits ''blastn4-545'' [] 0 = Inl IndexError" by blast
  ultimately show ?thesis using h d by blast
qed

text \<open>
  An instance of C8: one read at level 95 above the cutoff, and the empty stream.
\<close>
theorem countHits_table_witness:
  "countHits ''a.b.c/d/e/f/blastn4-545''
      [\<lparr>query = ''read1|x|95'',
        alignments = [\<lparr>hsps = [\<lparr>bits = 30, hsp_query = ''ACGT'', sbjct = ''ACGT''\<rparr>]\<rparr>]\<rparr>] 20
     = Inr (''blastn4-545'', dict_set readsPerLevel_init ''95'' 1)
   \<and> map fst (dict_set readsPerLevel_init ''95'' 1) =
           [''100'', ''99'', ''95'', ''90'', ''85'', ''80'', ''75'', ''70'', ''65'', ''60'', ''55'',
            ''50'', ''45'', ''40'', ''35'', ''30'', ''25'', ''20'', ''15'', ''10'', ''5'', ''0'']
   \<and> countHits ''a.b.c/d/e/f/blastn4-545'' [] 20 = Inr (''blastn4-545'', readsPerLevel_init)
   \<and> list_all (\<lambda>(k, v). v = 0) readsPerLevel_init"
proof -
  have h: "countHits ''a.b.c/d/e/f/blastn4-545''
      [\<lparr>query = ''read1|x|95'',
        alignments = [\<lparr>hsps = [\<lparr>bits = 30, hsp_query = ''ACGT'', sbjct = ''ACGT''\<rparr>]\<rparr>]\<rparr>] 20
     = Inr (''blastn4-545'', dict_set readsPerLevel_init ''95'' 1)"
    by (simp add: countHits_def countHits_record_def py_index_def dict_get_def dict_set_def
        readsPerLevel_init_def)
  have e: "countHits ''a.b.c/d/e/f/blastn4-545'' [] 20 = Inr (''blastn4-545'', readsPerLevel_init)"
    by (simp add: countHits_def py_index_def)
  from countHits_table [OF h]
  have "map fst (dict_set readsPerLevel_init ''95'' 1) =
           [''100'', ''99'', ''95'', ''90'', ''85'', ''80'', ''75'', ''70'', ''65'', ''60'', ''55'',
            ''50'', ''45'', ''40'', ''35'', ''30'', ''25'', ''20'', ''15'', ''10'', ''5'', ''0'']"
    by blast
  moreover from countHits_table [OF e]
  have "list_all (\<lambda>(k, v). v = 0) readsPerLevel_init"
    by (simp add: list_all_iff)
  ultimately show ?thesis using h e by blast
qed

text \<open>
  Instances of C7: a record without alignments, a score above the cutoff, and a score
  equal to the cutoff.
\<close>
theorem countHits_per_record_witness:
  "countHits ''a.b.c/d/e/f/blastn4-545'' [] 20 = Inr (''blastn4-545'', readsPerLevel_init)
   \<and> py_index (split_on CHR ''|'' ''read1|x|95'') 2 = Inr ''95''
   \<and> countHits ''a.b.c/d/e/f/blastn4-545''
        ([] @ [\<lparr>query = ''read1|x|95'', alignments = []\<rparr>]) 20
       = Inr (''blastn4-545'', readsPerLevel_init)
   \<and> dict_get (snd (projr (countHits ''a.b.c/d/e/f/blastn4-545''
        ([] @ [\<lparr>query = ''read1|x|95'',
           alignments = [\<lparr>hsps = [\<lparr>bits = 30, hsp_query = ''ACGT'', sbjct = ''ACGT''\<rparr>]\<rparr>]\<rparr>])
        20))) ''95'' = Some 1
   \<and> dict_get (snd (projr (countHits ''a.b.c/d/e/f/blastn4-545''
        ([] @ [\<lparr>query = ''read1|x|95'',
           alignments = [\<lparr>hsps = [\<lparr>bits = 20, hsp_query = ''ACGT'', sbjct = ''ACGT''\<rparr>]\<rparr>]\<rparr>])
        20))) ''95'' = Some 0"
proof -
  have p: "countHits ''a.b.c/d/e/f/blastn4-545'' [] 20 = Inr (''blastn4-545'', readsPerLevel_init)"
    by (simp add: countHits_def py_index_def)
  have l: "py_index (split_on CHR ''|'' ''read1|x|95'') 2 = Inr ''95''"
    by (simp add: py_index_def)
  have k: "''95'' \<in> fst ` set readsPerLevel_init"
    by (simp add: readsPerLevel_init_def)
  have z: "dict_get readsPerLevel_init ''95'' = Some 0"
    by (simp add: readsPerLevel_init_def dict_get_def)
  have c0: "countHits ''a.b.c/d/e/f/blastn4-545''
        ([] @ [\<lparr>query = ''read1|x|95'', alignments = []\<rparr>]) 20
       = Inr (''blastn4-545'', readsPerLevel_init)"
    using countHits_per_record [OF p, of "\<lparr>query = ''read1|x|95'', alignments = []\<rparr>" "''95''"] l
    by simp
  have c1: "dict_get (snd (projr (countHits ''a.b.c/d/e/f/blastn4-545''
        ([] @ [\<lparr>query = ''read1|x|95'',
           alignments = [\<lparr>hsps = [\<lparr>bits = 30, hsp_query = ''ACGT'', sbjct = ''ACGT''\<rparr>]\<rparr>]\<rparr>])
        20))) ''95'' = Some 1"
    using countHits_per_record [OF p, of "\<lparr>query = ''read1|x|95'',
           alignments = [\<lparr>hsps = [\<lparr>bits = 30, hsp_query = ''ACGT'', sbjct = ''ACGT''\<rparr>]\<rparr>]\<rparr>"
           "''95''"] l k z
    by auto
  have c2: "dict_get (snd (projr (countHits ''a.b.c/d/e/f/blastn4-545''
        ([] @ [\<lparr>query = ''read1|x|95'',
           alignments = [\<lparr>hsps = [\<lparr>bits = 20, hsp_query = ''ACGT'', sbjct = ''ACGT''\<rparr>]\<rparr>]\<rparr>])
        20))) ''95'' = Some 0"
    using countHits_per_record [OF p, of "\<lparr>query = ''read1|x|95'',
           alignments = [\<lparr>hsps = [\<lparr>bits = 20, hsp_query = ''ACGT'', sbjct = ''ACGT''\<rparr>]\<rparr>]\<rparr>"
           "''95''"] l k z
    by auto
  from p l c0 c1 c2 show ?thesis by blast
qed

text \<open>
  An instance of C10: an alignment with an empty list of high-scoring pairs.
\<close>
theorem countHits_empty_hsps_witness:
  "countHits_record 20 readsPerLevel_init
      \<lparr>query = ''read1|x|95'', alignments = [\<lparr>hsps = []\<rparr>]\<rparr> = Inl IndexError
   \<and> countHits ''a.b.c/d/e/f/blastn4-545'' [] 20 = Inr (''blastn4-545'', readsPerLevel_init)
   \<and> countHits ''a.b.c/d/e/f/blastn4-545''
        ([] @ \<lparr>query = ''read1|x|95'', alignments = [\<lparr>hsps = []\<rparr>]\<rparr> # []) 20 = Inl IndexError"
proof -
  have p: "countHits ''a.b.c/d/e/f/blastn4-545'' [] 20 = Inr (''blastn4-545'', readsPerLevel_init)"
    by (simp add: countHits_def py_index_def)
  have a: "alignments \<lparr>query = ''read1|x|95'', alignments = [\<lparr>hsps = []\<rparr>]\<rparr> = \<lparr>hsps = []\<rparr> # []"
    by simp
  have h: "hsps \<lparr>hsps = []\<rparr> = []" by simp
  from countHits_empty_hsps [OF a h, of 20 readsPerLevel_init "''a.b.c/d/e/f/blastn4-545''"] p
  show ?thesis by blast
qed

section \<open>Properties of the float model\<close>

lemma bit_length_0: "bit_length 0 = 0"
  by (simp add: bit_length.simps)

lemma bit_length_pos: "0 < n \<Longrightarrow> bit_length n = Suc (bit_length (n div 2))"
  by (subst bit_length.simps) simp

lemma bit_length_bounds: "0 < n \<Longrightarrow> 2 ^ (bit_length n - 1) \<le> n \<and> n < 2 ^ bit_length n"
proof (induction n rule: bit_length.induct)
  case (1 n)
  show ?case
  proof (cases "n div 2 = 0")
    case True
    with "1.prems" have "n = 1" by (simp add: div_eq_0_iff) 
    then show ?thesis by (simp add: bit_length_pos bit_length_0)
  next
    case False
    then have p: "0 < n div 2" by simp
    from "1.prems" have n0: "n \<noteq> 0" by simp
    from "1.IH" [OF n0 p]
    have ih: "2 ^ (bit_length (n div 2) - 1) \<le> n div 2" "n div 2 < 2 ^ bit_length (n div 2)"
      by simp_all
    have b: "bit_length n = Suc (bit_length (n div 2))" using "1.prems" by (rule bit_length_pos)
    have bp: "0 < bit_length (n div 2)" using p by (simp add: bit_length_pos)
    then obtain k where k: "bit_length (n div 2) = Suc k" by (cases "bit_length (n div 2)") auto
    from ih k have "2 * 2 ^ k \<le> 2 * (n div 2)" by simp
    also have "\<dots> \<le> n" by simp
    finally have l: "2 ^ (bit_length n - 1) \<le> n" using b k by simp
    from ih(2) have "n div 2 + 1 \<le> 2 ^ bit_length (n div 2)" by simp
    then have "2 * (n div 2) + 2 \<le> 2 * 2 ^ bit_length (n div 2)" by simp
    moreover have "n < 2 * (n div 2) + 2" by presburger
    ultimately have "n < 2 ^ bit_length n" using b by simp
    with l show ?thesis by simp
  qed
qed

lemma pow2_pos: "0 < pow2 e"
  by (simp add: pow2_def)

lemma pow2_add: "pow2 (a + b) = pow2 a * pow2 b"
proof -
  have "pow2 e = 2 powi e" for e
    by (simp add: pow2_def power_int_def field_simps)
  then show ?thesis by (simp add: power_int_add)
qed

lemma pow2_powi: "pow2 e = 2 powi e"
  by (simp add: pow2_def power_int_def field_simps)

lemma pow2_mono: "a \<le> b \<Longrightarrow> pow2 a \<le> pow2 b"
  by (simp add: pow2_powi power_int_increasing)

lemma pow2_less_iff: "pow2 a < pow2 b \<longleftrightarrow> a < b"
proof
  assume "a < b"
  then show "pow2 a < pow2 b" by (simp add: pow2_powi power_int_strict_increasing)
next
  assume l: "pow2 a < pow2 b"
  show "a < b"
  proof (rule ccontr)
    assume "\<not> a < b"
    then have "pow2 b \<le> pow2 a" by (simp add: pow2_mono)
    with l show False by simp
  qed
qed

lemma pow2_nat: "pow2 (int n) = 2 ^ n"
  by (simp add: pow2_def)

lemma ilog2_bounds:
  assumes "0 < x"
  shows "pow2 (ilog2 x) \<le> x \<and> x < pow2 (ilog2 x + 1)"
proof (cases "1 \<le> x")
  case True
  define n where "n = nat \<lfloor>x\<rfloor>"
  from True have f: "1 \<le> \<lfloor>x\<rfloor>" by simp
  then have nn: "rat_of_nat n = rat_of_int \<lfloor>x\<rfloor>"
    unfolding n_def by (simp add: of_nat_nat)
  have n: "0 < n" "rat_of_nat n \<le> x" "x < rat_of_nat n + 1"
  proof -
    show "0 < n" using f unfolding n_def by simp
    show "rat_of_nat n \<le> x" unfolding nn by linarith
    show "x < rat_of_nat n + 1" unfolding nn by linarith
  qed
  from bit_length_bounds [OF n(1)]
  have b: "2 ^ (bit_length n - 1) \<le> n" "n < 2 ^ bit_length n" by simp_all
  from n(1) have bp: "0 < bit_length n" by (simp add: bit_length_pos)
  have e: "ilog2 x = int (bit_length n) - 1"
    using True by (simp add: ilog2_def n_def)
  have e': "ilog2 x = int (bit_length n - 1)" using e bp by simp
  have "pow2 (ilog2 x) = 2 ^ (bit_length n - 1)" unfolding e' by (rule pow2_nat)
  also have "\<dots> \<le> rat_of_nat n" using b(1) by (metis of_nat_le_iff of_nat_numeral of_nat_power)
  finally have l: "pow2 (ilog2 x) \<le> x" using n(2) by simp
  have "n + 1 \<le> 2 ^ bit_length n" using b(2) by simp
  then have "rat_of_nat (n + 1) \<le> 2 ^ bit_length n"
    by (metis of_nat_le_iff of_nat_numeral of_nat_power)
  with n(3) have "x < 2 ^ bit_length n" by simp
  also have "\<dots> = pow2 (ilog2 x + 1)" using e pow2_nat [of "bit_length n"] by simp
  finally show ?thesis using l by simp
next
  case False
  with assms have x1: "x < 1" by simp
  define N where "N = nat \<lceil>1 / x\<rceil>"
  have inv: "1 < 1 / x" using assms x1 by simp
  then have c: "2 \<le> \<lceil>1 / x\<rceil>" by linarith
  then have N: "2 \<le> N" unfolding N_def by linarith
  have NN: "rat_of_nat N = rat_of_int \<lceil>1 / x\<rceil>"
    unfolding N_def using c by (simp add: of_nat_nat)
  have ub: "1 / x \<le> rat_of_nat N" unfolding NN by linarith
  have lb: "rat_of_nat N - 1 < 1 / x" unfolding NN by linarith
  define k where "k = bit_length (N - 1)"
  from N have p: "0 < N - 1" by simp
  from bit_length_bounds [OF p] have b: "2 ^ (k - 1) \<le> N - 1" "N - 1 < 2 ^ k"
    unfolding k_def by simp_all
  from p have kp: "0 < k" unfolding k_def by (simp add: bit_length_pos)
  have "nat (\<lceil>1 / x\<rceil> - 1) = N - 1" unfolding N_def using c by linarith
  then have e: "ilog2 x = - int k"
    using False by (simp add: ilog2_def k_def)
  from b(2) N have "N \<le> 2 ^ k" by simp
  then have Nk: "rat_of_nat N \<le> 2 ^ k" by (metis of_nat_le_iff of_nat_numeral of_nat_power)
  from ub Nk have "1 / x \<le> 2 ^ k" by (rule order_trans)
  then have "1 \<le> 2 ^ k * x" using assms by (simp add: field_simps)
  then have l: "pow2 (ilog2 x) \<le> x" unfolding e using kp by (simp add: pow2_def field_simps)
  have "rat_of_nat (2 ^ (k - 1)) \<le> rat_of_nat (N - 1)" using b(1) by (simp only: of_nat_le_iff)
  then have kN: "2 ^ (k - 1) \<le> rat_of_nat N - 1" using N by (simp add: of_nat_diff)
  from kN lb have "2 ^ (k - 1) < 1 / x" by (rule order_le_less_trans)
  then have u': "2 ^ (k - 1) * x < 1" using assms by (simp add: field_simps)
  have "pow2 (ilog2 x + 1) = 1 / 2 ^ (k - 1)"
  proof (cases "k = 1")
    case True
    then show ?thesis by (simp add: e pow2_def)
  next
    case False
    with kp have "1 < k" by simp
    then have "nat (int k - 1) = k - 1" by simp
    with \<open>1 < k\<close> show ?thesis by (simp add: e pow2_def)
  qed
  moreover from u' have "x < 1 / 2 ^ (k - 1)" by (simp add: field_simps)
  ultimately show ?thesis using l by simp
qed

lemma round_half_even_of_int: "round_half_even (of_int k) = k"
  by (simp add: round_half_even_def)

lemma round_half_even_between:
  assumes "of_int a \<le> y" and "y \<le> of_int b"
  shows "a \<le> round_half_even y \<and> round_half_even y \<le> b"
proof -
  define n where "n = \<lfloor>y\<rfloor>"
  have an: "a \<le> n" unfolding n_def using assms(1) by (simp add: le_floor_iff)
  have nb: "n \<le> b" unfolding n_def using assms(2) by (simp add: floor_le_iff)
  have r: "round_half_even y = n \<or> (round_half_even y = n + 1 \<and> of_int n < y)"
    unfolding round_half_even_def n_def Let_def by (auto split: if_splits) 
  then show ?thesis
  proof
    assume "round_half_even y = n"
    with an nb show ?thesis by simp
  next
    assume h: "round_half_even y = n + 1 \<and> of_int n < y"
    then have "rat_of_int n < of_int b" using assms(2) by simp
    then have "n < b" by simp
    with h an show ?thesis by simp
  qed
qed

lemma round_half_even_error: "\<bar>of_int (round_half_even y) - y\<bar> \<le> 1 / 2"
proof -
  have "of_int \<lfloor>y\<rfloor> \<le> y" "y < of_int \<lfloor>y\<rfloor> + 1" by linarith+
  then show ?thesis
    unfolding round_half_even_def Let_def by (auto split: if_splits simp: abs_le_iff)
qed

text \<open>The significand of a positive number.\<close>

lemma scaled_bounds:
  assumes "0 < x"
  shows "2 ^ 52 \<le> x / pow2 (ilog2 x - 52) \<and> x / pow2 (ilog2 x - 52) < 2 ^ 53"
proof -
  from ilog2_bounds [OF assms]
  have l: "pow2 (ilog2 x) \<le> x" and u: "x < pow2 (ilog2 x + 1)" by simp_all
  have a: "pow2 (ilog2 x) = pow2 (ilog2 x - 52) * 2 ^ 52"
    using pow2_add [of "ilog2 x - 52" 52] pow2_nat [of 52] by simp
  have "ilog2 x + 1 = ilog2 x - 52 + 53" by simp
  then have b: "pow2 (ilog2 x + 1) = pow2 (ilog2 x - 52) * 2 ^ 53"
    using pow2_add [of "ilog2 x - 52" 53] pow2_nat [of 53] by (simp add: add.commute)
  have p: "0 < pow2 (ilog2 x - 52)" by (rule pow2_pos)
  from l a p have "2 ^ 52 \<le> x / pow2 (ilog2 x - 52)"
    by (simp add: field_simps)
  moreover from u b p have "x / pow2 (ilog2 x - 52) < 2 ^ 53"
    by (simp add: field_simps)
  ultimately show ?thesis by simp
qed

lemma fl_0: "fl 0 = 0"
  by (simp add: fl_def)

lemma fl_pos_bounds:
  assumes "0 < x"
  shows "2 ^ 52 * pow2 (ilog2 x - 52) \<le> fl x \<and> fl x \<le> 2 ^ 53 * pow2 (ilog2 x - 52)"
proof -
  define e where "e = ilog2 x - 52"
  define y where "y = x / pow2 e"
  from scaled_bounds [OF assms] have y: "of_int (2 ^ 52) \<le> y" "y \<le> of_int (2 ^ 53)"
    unfolding y_def e_def by simp_all
  from round_half_even_between [OF y]
  have m: "2 ^ 52 \<le> round_half_even y" "round_half_even y \<le> 2 ^ 53" by simp_all
  have f: "fl x = of_int (round_half_even y) * pow2 e"
    using assms by (simp add: fl_def y_def e_def Let_def)
  have p: "0 < pow2 e" by (rule pow2_pos)
  from m(1) have "rat_of_int (2 ^ 52) \<le> of_int (round_half_even y)" by (simp only: of_int_le_iff)
  then have l: "2 ^ 52 * pow2 e \<le> fl x" unfolding f using p by simp
  from m(2) have "rat_of_int (round_half_even y) \<le> of_int (2 ^ 53)" by (simp only: of_int_le_iff)
  then have "fl x \<le> 2 ^ 53 * pow2 e" unfolding f using p by simp
  with l show ?thesis unfolding e_def by simp
qed

lemma fl_neg_bounds:
  assumes "x < 0"
  shows "- (2 ^ 53) * pow2 (ilog2 \<bar>x\<bar> - 52) \<le> fl x \<and> fl x \<le> - (2 ^ 52) * pow2 (ilog2 \<bar>x\<bar> - 52)"
proof -
  define e where "e = ilog2 \<bar>x\<bar> - 52"
  define y where "y = x / pow2 e"
  have ax: "0 < \<bar>x\<bar>" using assms by simp
  have p: "0 < pow2 e" by (rule pow2_pos)
  have "\<bar>x\<bar> / pow2 e = - y" using assms by (simp add: y_def)
  with scaled_bounds [OF ax] have "2 ^ 52 \<le> - y" "- y < 2 ^ 53" unfolding e_def by simp_all
  then have y: "of_int (- (2 ^ 53)) \<le> y" "y \<le> of_int (- (2 ^ 52))" by simp_all
  from round_half_even_between [OF y]
  have m: "- (2 ^ 53) \<le> round_half_even y" "round_half_even y \<le> - (2 ^ 52)" by simp_all
  have f: "fl x = of_int (round_half_even y) * pow2 e"
    using assms by (simp add: fl_def y_def e_def Let_def)
  from m(1) have "rat_of_int (- (2 ^ 53)) \<le> of_int (round_half_even y)" by (simp only: of_int_le_iff)
  then have "rat_of_int (- (2 ^ 53)) * pow2 e \<le> of_int (round_half_even y) * pow2 e"
    using p by (intro mult_right_mono) simp_all
  then have l: "- (2 ^ 53) * pow2 e \<le> fl x" unfolding f by simp
  from m(2) have "rat_of_int (round_half_even y) \<le> of_int (- (2 ^ 52))" by (simp only: of_int_le_iff)
  then have "rat_of_int (round_half_even y) * pow2 e \<le> of_int (- (2 ^ 52)) * pow2 e"
    using p by (intro mult_right_mono) simp_all
  then have "fl x \<le> - (2 ^ 52) * pow2 e" unfolding f by simp
  with l show ?thesis unfolding e_def by simp
qed

lemma fl_pos: "0 < x \<Longrightarrow> 0 < fl x"
proof -
  assume x: "0 < x"
  have "0 < 2 ^ 52 * pow2 (ilog2 x - 52)" using pow2_pos [of "ilog2 x - 52"] by simp
  with fl_pos_bounds [OF x] show ?thesis by linarith
qed

lemma fl_neg: "x < 0 \<Longrightarrow> fl x < 0"
proof -
  assume x: "x < 0"
  have "0 < 2 ^ 52 * pow2 (ilog2 \<bar>x\<bar> - 52)" using pow2_pos [of "ilog2 \<bar>x\<bar> - 52"] by simp
  with fl_neg_bounds [OF x] show ?thesis by linarith
qed

lemma fl_eq_0_iff: "fl x = 0 \<longleftrightarrow> x = 0"
  using fl_pos [of x] fl_neg [of x] fl_0 by (cases "x = 0") (auto simp: neq_iff)

lemma fl_abs_le: "\<bar>fl x\<bar> \<le> 2 * \<bar>x\<bar>"
proof -
  have pos: "fl z \<le> 2 * z" if z: "0 < z" for z
  proof -
    from scaled_bounds [OF z] have "2 ^ 52 \<le> z / pow2 (ilog2 z - 52)" by simp
    then have "2 ^ 52 * pow2 (ilog2 z - 52) \<le> z"
      using pow2_pos [of "ilog2 z - 52"] by (simp add: field_simps)
    with fl_pos_bounds [OF z] show ?thesis by simp
  qed
  consider "x = 0" | "0 < x" | "x < 0" by linarith
  then show ?thesis
  proof cases
    case 1
    then show ?thesis by (simp add: fl_0)
  next
    case 2
    with pos [OF 2] fl_pos [OF 2] show ?thesis by simp
  next
    case 3
    then have ax: "0 < \<bar>x\<bar>" by simp
    from scaled_bounds [OF ax] have "2 ^ 52 \<le> \<bar>x\<bar> / pow2 (ilog2 \<bar>x\<bar> - 52)" by simp
    then have "2 ^ 52 * pow2 (ilog2 \<bar>x\<bar> - 52) \<le> \<bar>x\<bar>"
      using pow2_pos [of "ilog2 \<bar>x\<bar> - 52"] by (simp add: field_simps)
    with fl_neg_bounds [OF 3] fl_neg [OF 3] show ?thesis by simp
  qed
qed

lemma ilog2_less:
  assumes "0 < x" and "x < pow2 k"
  shows "ilog2 x < k"
proof -
  from ilog2_bounds [OF assms(1)] have "pow2 (ilog2 x) \<le> x" by simp
  with assms(2) have "pow2 (ilog2 x) < pow2 k" by simp
  then show ?thesis by (simp add: pow2_less_iff)
qed

lemma fl_of_int:
  assumes "\<bar>n\<bar> < 2 ^ 53"
  shows "fl (of_int n) = of_int n"
proof (cases "n = 0")
  case True
  then show ?thesis by (simp add: fl_0)
next
  case False
  define x where "x = rat_of_int n"
  define e where "e = ilog2 \<bar>x\<bar> - 52"
  define k where "k = nat (- e)"
  have ax: "0 < \<bar>x\<bar>" using False by (simp add: x_def)
  have "rat_of_int \<bar>n\<bar> < rat_of_int (2 ^ 53)" using assms by (simp only: of_int_less_iff)
  then have "\<bar>x\<bar> < pow2 53" using pow2_nat [of 53] by (simp add: x_def)
  from ilog2_less [OF ax this] have e: "e \<le> 0" unfolding e_def by simp
  then have pe: "pow2 e = 1 / 2 ^ k"
    unfolding k_def pow2_def by (cases "e = 0") auto
  have "x / pow2 e = rat_of_int (n * 2 ^ k)" unfolding pe x_def by simp
  then have "round_half_even (x / pow2 e) = n * 2 ^ k"
    by (simp only: round_half_even_of_int)
  moreover have "fl x = of_int (round_half_even (x / pow2 e)) * pow2 e"
    using ax by (simp add: fl_def e_def Let_def)
  ultimately have "fl x = of_int (n * 2 ^ k) * pow2 e" by simp
  then show ?thesis unfolding pe x_def by simp
qed

lemma py_float_finite:
  assumes "\<bar>n\<bar> < 2 ^ 1023"
  shows "py_float n = Inr (fl (of_int n))"
proof (cases "n = 0")
  case True
  then show ?thesis by (simp add: py_float_def fl_0)
next
  case False
  define y where "y = \<bar>fl (rat_of_int n)\<bar>"
  have y0: "0 < y" using False by (simp add: y_def fl_eq_0_iff)
  have "rat_of_int \<bar>n\<bar> < rat_of_int (2 ^ 1023)" using assms by (simp only: of_int_less_iff)
  then have "2 * \<bar>rat_of_int n\<bar> < 2 * 2 ^ 1023" by simp
  with fl_abs_le [of "rat_of_int n"] have "y < 2 * 2 ^ 1023" unfolding y_def by linarith
  also have "\<dots> = pow2 1024" using pow2_nat [of 1024] by simp
  finally have "ilog2 y < 1024" by (rule ilog2_less [OF y0])
  then show ?thesis by (simp add: py_float_def Let_def y_def)
qed

lemma py_float_exact: "\<bar>n\<bar> < 2 ^ 53 \<Longrightarrow> py_float n = Inr (of_int n)"
proof -
  assume a: "\<bar>n\<bar> < 2 ^ 53"
  have "(2::int) ^ 53 < 2 ^ 1023" by simp
  with a have "\<bar>n\<bar> < 2 ^ 1023" by linarith
  from py_float_finite [OF this] fl_of_int [OF a] show ?thesis by simp
qed

lemma py_float_error: "py_float n = Inl e \<Longrightarrow> e = OverflowError"
  by (auto simp: py_float_def Let_def split: if_splits)

lemma py_float_zero_iff: "py_float n = Inr x \<Longrightarrow> x = 0 \<longleftrightarrow> n = 0"
  by (auto simp: py_float_def Let_def fl_eq_0_iff fl_0 split: if_splits)

lemma py_truediv_error: "py_truediv a b = Inl e \<Longrightarrow> e = ZeroDivisionError \<and> b = 0"
  by (auto simp: py_truediv_def split: if_splits)

lemma fl_1: "fl 1 = 1"
  using fl_of_int [of 1] by simp

lemma fl_numeral: "numeral k < (2::int) ^ 53 \<Longrightarrow> fl (numeral k) = numeral k"
  using fl_of_int [of "numeral k"] by simp

section \<open>Properties of calculateFrequencies\<close>

lemma collect_Inr:
  "collect f xs = Inr ys \<Longrightarrow> length ys = length xs \<and> (\<forall>i<length xs. f (xs ! i) = Inr (ys ! i))"
proof (induction xs arbitrary: ys)
  case Nil
  then show ?case by simp
next
  case (Cons x xs)
  from Cons.prems obtain y zs where y: "f x = Inr y" and zs: "collect f xs = Inr zs"
    and ys: "ys = y # zs"
    by (auto split: sum.splits)
  from Cons.IH [OF zs] y ys show ?case
    by (auto simp: nth_Cons split: nat.splits)
qed

lemma collect_Inl: "collect f xs = Inl e \<Longrightarrow> \<exists>x\<in>set xs. f x = Inl e"
  by (induction xs) (auto split: sum.splits)

lemma collect_map: "(\<And>x. x \<in> set xs \<Longrightarrow> f x = Inr (g x)) \<Longrightarrow> collect f xs = Inr (map g xs)"
  by (induction xs) auto

lemma levels_str:
  "map py_str levels =
     [''100'', ''99'', ''95'', ''90'', ''85'', ''80'', ''75'', ''70'', ''65'', ''60'', ''55'',
      ''50'', ''45'', ''40'', ''35'', ''30'', ''25'', ''20'', ''15'', ''10'', ''5'', ''0'']"
  by code_simp

lemma length_levels: "length levels = 22"
  by (simp add: levels_def)

lemma levelCounts_length: "levelCounts table = Inr l \<Longrightarrow> length l = 22"
  unfolding levelCounts_def by (drule collect_Inr) (simp add: length_levels)

lemma levelCounts_error: "levelCounts table = Inl e \<Longrightarrow> e = KeyError"
  unfolding levelCounts_def by (drule collect_Inl) (auto split: option.splits)

lemma frequencies_at_counts:
  assumes "frequencies_at res i = Inr r"
  shows "row_tp r = sum_list (take (i + 1) res) \<and> row_fp r = sum_list (drop (i + 1) res)
         \<and> row_fn r = 594 * (int i + 1) - row_tp r
         \<and> row_tn r = 594 * (22 - (int i + 1)) - row_fp r"
  using assms unfolding frequencies_at_def Let_def
  by (auto split: sum.splits py_error.splits prod.splits)

lemma frequencies_at_error:
  assumes "frequencies_at res i = Inl e"
  shows "e = OverflowError"
proof -
  have nz: "py_float (594 * int i + 594) \<noteq> Inr 0"
    using py_float_zero_iff [of "594 * int i + 594" 0] by auto
  show ?thesis
    using assms unfolding frequencies_at_def Let_def
    by (auto simp: nz split: sum.splits py_error.splits prod.splits
        dest!: py_float_error py_truediv_error)
qed

lemma frequencies_at_degenerate:
  assumes "frequencies_at res i = Inr r" and "row_tn r + row_fp r = 0"
  shows "row_fpr r = 0 \<and> row_spc r = 0"
proof -
  from frequencies_at_counts [OF assms(1)] assms(2)
  have z: "sum_list (drop (i + 1) res) + (594 * (22 - (int i + 1)) - sum_list (drop (i + 1) res)) = 0"
    by simp
  have f0: "py_float 0 = Inr 0" by (simp add: py_float_def fl_0)
  show ?thesis
    using assms(1) unfolding frequencies_at_def Let_def z f0
    by (auto simp: py_truediv_def split: sum.splits py_error.splits prod.splits)
qed

lemma schemeFrequencies_rows:
  assumes "schemeFrequencies res = Inr f"
  shows "raw f = res \<and> length (fprs f) = length res \<and> length (tprs f) = length res
         \<and> length (spcs f) = length res \<and> length (tps f) = length res
         \<and> length (tns f) = length res \<and> length (fps f) = length res
         \<and> length (fns f) = length res
         \<and> (\<forall>i<length res. \<exists>r. frequencies_at res i = Inr r
               \<and> fprs f ! i = row_fpr r \<and> tprs f ! i = row_tpr r \<and> spcs f ! i = row_spc r
               \<and> tps f ! i = row_tp r \<and> tns f ! i = row_tn r \<and> fps f ! i = row_fp r
               \<and> fns f ! i = row_fn r)"
proof -
  from assms obtain rows where rows: "collect (frequencies_at res) [0..<length res] = Inr rows"
    and f: "f = \<lparr>fprs = map row_fpr rows, tprs = map row_tpr rows, spcs = map row_spc rows,
               tps = map row_tp rows, tns = map row_tn rows, fps = map row_fp rows,
               fns = map row_fn rows, raw = res\<rparr>"
    by (auto simp: schemeFrequencies_def split: sum.splits)
  from collect_Inr [OF rows] have l: "length rows = length res"
    and r: "\<forall>i<length res. frequencies_at res i = Inr (rows ! i)"
    by simp_all
  from l r show ?thesis unfolding f by simp
qed

lemma schemeFrequencies_error: "schemeFrequencies res = Inl e \<Longrightarrow> e = OverflowError"
  unfolding schemeFrequencies_def
  by (auto split: sum.splits dest!: collect_Inl frequencies_at_error)

lemma calculateFrequencies_scheme:
  assumes "calculateFrequencies hitDict = Inr frequencies" and "(s, f) \<in> set frequencies"
  shows "\<exists>table res. (s, table) \<in> set hitDict \<and> levelCounts table = Inr res
           \<and> schemeFrequencies res = Inr f"
proof -
  from assms(1) obtain listDict where
    l: "collect (\<lambda>(scoringScheme, table).
               case levelCounts table of Inl e \<Rightarrow> Inl e | Inr l \<Rightarrow> Inr (scoringScheme, l))
             hitDict = Inr listDict"
    and c: "collect (\<lambda>(scoringScheme, res).
               case schemeFrequencies res of
                 Inl e \<Rightarrow> Inl e
               | Inr f \<Rightarrow> Inr (scoringScheme, f))
            listDict = Inr frequencies"
    by (auto simp: calculateFrequencies_def split: sum.splits)
  from assms(2) obtain k where k: "k < length frequencies" "frequencies ! k = (s, f)"
    by (auto simp: in_set_conv_nth)
  from collect_Inr [OF c] k have kl: "k < length listDict"
    and sf: "(case listDict ! k of (scoringScheme, res) \<Rightarrow>
               case schemeFrequencies res of
                 Inl e \<Rightarrow> Inl e
               | Inr f \<Rightarrow> Inr (scoringScheme, f)) = Inr (s, f)"
    by auto
  obtain s' res where sr: "listDict ! k = (s', res)" by (cases "listDict ! k")
  with sf have s': "s' = s" and f: "schemeFrequencies res = Inr f"
    by (auto split: sum.splits)
  from collect_Inr [OF l] kl have kh: "k < length hitDict"
    and lc: "(case hitDict ! k of (scoringScheme, table) \<Rightarrow>
               case levelCounts table of Inl e \<Rightarrow> Inl e | Inr l \<Rightarrow> Inr (scoringScheme, l))
             = Inr (listDict ! k)"
    by auto
  obtain s'' table where st: "hitDict ! k = (s'', table)" by (cases "hitDict ! k")
  with lc sr s' have "s'' = s" and t: "levelCounts table = Inr res"
    by (auto split: sum.splits)
  with st kh have "(s, table) \<in> set hitDict" by (auto simp: in_set_conv_nth)
  with t f show ?thesis by blast
qed

lemma calculateFrequencies_error:
  "calculateFrequencies hitDict = Inl e \<Longrightarrow> e = KeyError \<or> e = OverflowError"
  unfolding calculateFrequencies_def
  by (auto split: sum.splits prod.splits dest!: collect_Inl levelCounts_error schemeFrequencies_error)

lemma calculateFrequencies_row:
  assumes "calculateFrequencies hitDict = Inr frequencies" and "(s, f) \<in> set frequencies"
    and "i < 22"
  shows "length (raw f) = 22 \<and> length (fprs f) = 22 \<and> length (tprs f) = 22
         \<and> length (spcs f) = 22 \<and> length (tps f) = 22
         \<and> length (tns f) = 22 \<and> length (fps f) = 22 \<and> length (fns f) = 22
         \<and> (\<exists>r. frequencies_at (raw f) i = Inr r
               \<and> fprs f ! i = row_fpr r \<and> tprs f ! i = row_tpr r \<and> spcs f ! i = row_spc r
               \<and> tps f ! i = row_tp r \<and> tns f ! i = row_tn r \<and> fps f ! i = row_fp r
               \<and> fns f ! i = row_fn r)"
proof -
  from calculateFrequencies_scheme [OF assms(1,2)] obtain table res
    where t: "levelCounts table = Inr res" and f: "schemeFrequencies res = Inr f"
    by blast
  from levelCounts_length [OF t] have l: "length res = 22" .
  from schemeFrequencies_rows [OF f] l assms(3) show ?thesis by simp
qed

text \<open>
  Claim C3. For every scoring scheme of a result of \<open>calculateFrequencies\<close> and every index
  \<open>i\<close> from 0 to 21, the lists have 22 entries, \<open>tp[i] + fn[i]\<close> is \<open>594 * (i + 1)\<close> and
  \<open>tn[i] + fp[i]\<close> is \<open>594 * (22 - (i + 1))\<close>, whatever the raw counts are.
\<close>
theorem calculateFrequencies_conservation:
  assumes "calculateFrequencies hitDict = Inr frequencies"
      and "(scoringScheme, f) \<in> set frequencies"
      and "i < 22"
  shows "length (raw f) = 22 \<and> length (tps f) = 22 \<and> length (fns f) = 22
         \<and> length (tns f) = 22 \<and> length (fps f) = 22
         \<and> tps f ! i + fns f ! i = 594 * (int i + 1)
         \<and> tns f ! i + fps f ! i = 594 * (22 - (int i + 1))"
proof -
  from calculateFrequencies_row [OF assms] obtain r where
    r: "frequencies_at (raw f) i = Inr r" and
    e: "tps f ! i = row_tp r" "tns f ! i = row_tn r" "fps f ! i = row_fp r" "fns f ! i = row_fn r"
    and l: "length (raw f) = 22" "length (tps f) = 22" "length (fns f) = 22"
       "length (tns f) = 22" "length (fps f) = 22"
    by blast
  from frequencies_at_counts [OF r] e l show ?thesis by simp
qed

lemma sum_list_take_mono:
  fixes xs :: "int list"
  assumes "\<forall>c\<in>set xs. 0 \<le> c" and "m \<le> n"
  shows "sum_list (take m xs) \<le> sum_list (take n xs)"
proof -
  from assms(2) have "take n xs = take m xs @ take (n - m) (drop m xs)"
    by (metis le_add_diff_inverse take_add)
  moreover have "0 \<le> sum_list (take (n - m) (drop m xs))"
    using assms(1) by (intro sum_list_nonneg) (auto dest: in_set_takeD in_set_dropD)
  ultimately show ?thesis by simp
qed

text \<open>
  Claim C1, as the code has it. When the raw counts of a scheme are not negative, the
  cumulative true positives \<open>tps\<close> never decrease as the index grows from 0 to 21. The rate
  \<open>tpr\<close> divides them by \<open>594 * (i + 1)\<close>, which grows too, and is left out.
\<close>
theorem calculateFrequencies_tps_mono:
  assumes "calculateFrequencies hitDict = Inr frequencies"
      and "(scoringScheme, f) \<in> set frequencies"
      and "\<forall>c\<in>set (raw f). 0 \<le> c"
      and "i \<le> j" and "j < 22"
  shows "tps f ! i \<le> tps f ! j"
proof -
  from assms(4,5) have i: "i < 22" by simp
  from calculateFrequencies_row [OF assms(1,2) i] obtain r where
    r: "frequencies_at (raw f) i = Inr r" and ri: "tps f ! i = row_tp r" by blast
  from calculateFrequencies_row [OF assms(1,2,5)] obtain r' where
    r': "frequencies_at (raw f) j = Inr r'" and rj: "tps f ! j = row_tp r'" by blast
  from frequencies_at_counts [OF r] ri have "tps f ! i = sum_list (take (i + 1) (raw f))" by simp
  moreover from frequencies_at_counts [OF r'] rj
  have "tps f ! j = sum_list (take (j + 1) (raw f))" by simp
  moreover from assms(4) have "i + 1 \<le> j + 1" by simp
  ultimately show ?thesis using sum_list_take_mono [OF assms(3)] by simp
qed

lemma sum_list_abs_bound:
  fixes xs :: "int list"
  assumes "\<forall>c\<in>set xs. \<bar>c\<bar> \<le> B"
  shows "\<bar>sum_list xs\<bar> \<le> int (length xs) * B"
  using assms
proof (induction xs)
  case Nil
  then show ?case by simp
next
  case (Cons x xs)
  then have "\<bar>x\<bar> \<le> B" "\<bar>sum_list xs\<bar> \<le> int (length xs) * B" by simp_all
  then show ?case by (simp add: algebra_simps)
qed

lemma part_sum_bound:
  fixes res :: "int list"
  assumes "length res = 22" and "\<forall>c\<in>set res. \<bar>c\<bar> \<le> 2 ^ 1000"
  shows "\<bar>sum_list (take n res)\<bar> \<le> 22 * 2 ^ 1000" and "\<bar>sum_list (drop n res)\<bar> \<le> 22 * 2 ^ 1000"
proof -
  have t: "\<forall>c\<in>set (take n res). \<bar>c\<bar> \<le> 2 ^ 1000"
    using assms(2) by (auto dest: in_set_takeD)
  have d: "\<forall>c\<in>set (drop n res). \<bar>c\<bar> \<le> 2 ^ 1000"
    using assms(2) by (auto dest: in_set_dropD)
  have "int (length (take n res)) * 2 ^ 1000 \<le> 22 * 2 ^ 1000"
    using assms(1) by (intro mult_right_mono) simp_all
  with sum_list_abs_bound [OF t] show "\<bar>sum_list (take n res)\<bar> \<le> 22 * 2 ^ 1000" by linarith
  have "int (length (drop n res)) * 2 ^ 1000 \<le> 22 * 2 ^ 1000"
    using assms(1) by (intro mult_right_mono) simp_all
  with sum_list_abs_bound [OF d] show "\<bar>sum_list (drop n res)\<bar> \<le> 22 * 2 ^ 1000" by linarith
qed

lemma frequencies_at_value:
  assumes len: "length res = 22" and i: "i < 22" and b: "\<forall>c\<in>set res. \<bar>c\<bar> \<le> 2 ^ 1000"
  defines "tp \<equiv> sum_list (take (i + 1) res)"
      and "fp \<equiv> sum_list (drop (i + 1) res)"
  defines "tn \<equiv> 594 * (22 - (int i + 1)) - fp"
  shows "frequencies_at res i = Inr
           \<lparr>row_fpr = (if i = 21 then 0
                        else fl (fl (of_int fp) / of_int (594 * (22 - (int i + 1))))),
            row_tpr = fl (fl (of_int tp) / of_int (594 * (int i + 1))),
            row_spc = (if i = 21 then 0
                        else fl (fl (of_int tn) / of_int (594 * (22 - (int i + 1))))),
            row_tp = tp, row_tn = tn, row_fp = fp, row_fn = 594 * (int i + 1) - tp\<rparr>"
proof -
  have big: "(22::int) * 2 ^ 1000 + 594 * 22 < 2 ^ 1023" by simp
  have tpb: "\<bar>tp\<bar> \<le> 22 * 2 ^ 1000" unfolding tp_def by (rule part_sum_bound [OF len b])
  have fpb: "\<bar>fp\<bar> \<le> 22 * 2 ^ 1000" unfolding fp_def by (rule part_sum_bound [OF len b])
  define d where "d = 594 * (22 - (int i + 1))"
  have "0 \<le> d" "d \<le> 594 * 22" unfolding d_def using i by simp_all
  then have "\<bar>d - fp\<bar> \<le> 594 * 22 + \<bar>fp\<bar>" by linarith
  then have "\<bar>tn\<bar> \<le> 594 * 22 + \<bar>fp\<bar>" unfolding tn_def d_def .
  with fpb big have tnb: "\<bar>tn\<bar> < 2 ^ 1023" by linarith
  from tpb big have ftp: "py_float tp = Inr (fl (of_int tp))"
    by (intro py_float_finite) linarith
  from fpb big have ffp: "py_float fp = Inr (fl (of_int fp))"
    by (intro py_float_finite) linarith
  from tnb have ftn: "py_float tn = Inr (fl (of_int tn))"
    by (rule py_float_finite)
  have pos: "py_float (594 * (int i + 1)) = Inr (of_int (594 * (int i + 1)))"
    using i by (intro py_float_exact) simp
  have neg: "py_float (594 * (22 - (int i + 1))) = Inr (of_int (594 * (22 - (int i + 1))))"
    using i by (intro py_float_exact) simp
  have s1: "tp + (594 * (int i + 1) - tp) = 594 * (int i + 1)" by simp
  have s2: "fp + tn = 594 * (22 - (int i + 1))" unfolding tn_def by simp
  have d1: "rat_of_int (594 * (int i + 1)) \<noteq> 0" by simp
  have d2: "rat_of_int (594 * (22 - (int i + 1))) = 0 \<longleftrightarrow> i = 21"
    using i by (simp add: of_int_eq_0_iff [symmetric] del: of_int_eq_0_iff) 
  have "frequencies_at res i =
     (case py_float tp of Inl e \<Rightarrow> Inl e | Inr ftp \<Rightarrow>
         (case py_float (tp + (594 * (int i + 1) - tp)) of Inl e \<Rightarrow> Inl e | Inr fpos \<Rightarrow>
         (case py_truediv ftp fpos of Inl e \<Rightarrow> Inl e | Inr tpr \<Rightarrow>
         (case
            (case py_float fp of Inl e \<Rightarrow> Inl e | Inr ffp \<Rightarrow>
            (case py_float (fp + tn) of Inl e \<Rightarrow> Inl e | Inr fneg \<Rightarrow>
            (case py_truediv ffp fneg of Inl e \<Rightarrow> Inl e | Inr fpr \<Rightarrow>
            (case py_float tn of Inl e \<Rightarrow> Inl e | Inr ftn \<Rightarrow>
            (case py_float (fp + tn) of Inl e \<Rightarrow> Inl e | Inr fneg' \<Rightarrow>
            (case py_truediv ftn fneg' of Inl e \<Rightarrow> Inl e | Inr spc \<Rightarrow> Inr (fpr, spc)))))))
          of
            Inl ZeroDivisionError \<Rightarrow>
              Inr \<lparr>row_fpr = 0, row_tpr = tpr, row_spc = 0,
                   row_tp = tp, row_tn = tn, row_fp = fp, row_fn = 594 * (int i + 1) - tp\<rparr>
          | Inl e \<Rightarrow> Inl e
          | Inr (fpr, spc) \<Rightarrow>
              Inr \<lparr>row_fpr = fpr, row_tpr = tpr, row_spc = spc,
                   row_tp = tp, row_tn = tn, row_fp = fp, row_fn = 594 * (int i + 1) - tp\<rparr>))))"
    unfolding frequencies_at_def Let_def tp_def fp_def tn_def ..
  also have "\<dots> = Inr
           \<lparr>row_fpr = (if i = 21 then 0
                        else fl (fl (of_int fp) / of_int (594 * (22 - (int i + 1))))),
            row_tpr = fl (fl (of_int tp) / of_int (594 * (int i + 1))),
            row_spc = (if i = 21 then 0
                        else fl (fl (of_int tn) / of_int (594 * (22 - (int i + 1))))),
            row_tp = tp, row_tn = tn, row_fp = fp, row_fn = 594 * (int i + 1) - tp\<rparr>"
    unfolding s1 s2 ftp ffp ftn pos neg py_truediv_def
    using d1 d2 by (simp del: of_int_mult of_int_add of_int_diff)
  finally show ?thesis .
qed

lemma schemeFrequencies_value:
  assumes len: "length res = 22" and b: "\<forall>c\<in>set res. \<bar>c\<bar> \<le> 2 ^ 1000"
  shows "schemeFrequencies res = Inr
     \<lparr>fprs = map (\<lambda>i. if i = 21 then 0
                        else fl (fl (of_int (sum_list (drop (i + 1) res)))
                                  / of_int (594 * (22 - (int i + 1))))) [0..<22],
      tprs = map (\<lambda>i. fl (fl (of_int (sum_list (take (i + 1) res)))
                            / of_int (594 * (int i + 1)))) [0..<22],
      spcs = map (\<lambda>i. if i = 21 then 0
                        else fl (fl (of_int (594 * (22 - (int i + 1)) - sum_list (drop (i + 1) res)))
                                  / of_int (594 * (22 - (int i + 1))))) [0..<22],
      tps = map (\<lambda>i. sum_list (take (i + 1) res)) [0..<22],
      tns = map (\<lambda>i. 594 * (22 - (int i + 1)) - sum_list (drop (i + 1) res)) [0..<22],
      fps = map (\<lambda>i. sum_list (drop (i + 1) res)) [0..<22],
      fns = map (\<lambda>i. 594 * (int i + 1) - sum_list (take (i + 1) res)) [0..<22],
      raw = res\<rparr>"
proof -
  have "collect (frequencies_at res) [0..<length res] =
    Inr (map (\<lambda>i. \<lparr>row_fpr = (if i = 21 then 0
                        else fl (fl (of_int (sum_list (drop (i + 1) res)))
                                  / of_int (594 * (22 - (int i + 1))))),
            row_tpr = fl (fl (of_int (sum_list (take (i + 1) res))) / of_int (594 * (int i + 1))),
            row_spc = (if i = 21 then 0
                        else fl (fl (of_int (594 * (22 - (int i + 1)) - sum_list (drop (i + 1) res)))
                                  / of_int (594 * (22 - (int i + 1))))),
            row_tp = sum_list (take (i + 1) res),
            row_tn = 594 * (22 - (int i + 1)) - sum_list (drop (i + 1) res),
            row_fp = sum_list (drop (i + 1) res),
            row_fn = 594 * (int i + 1) - sum_list (take (i + 1) res)\<rparr>) [0..<length res])"
    by (rule collect_map) (simp add: frequencies_at_value [OF len _ b] len)
  then show ?thesis
    by (simp add: schemeFrequencies_def len comp_def)
qed

lemma levelCounts_value:
  assumes "\<forall>level\<in>set levels. \<exists>c. dict_get table (py_str level) = Some c"
  shows "levelCounts table = Inr (map (\<lambda>nr. the (dict_get table (py_str nr))) levels)"
  unfolding levelCounts_def using assms by (intro collect_map) auto

lemma calculateFrequencies_returns:
  assumes "\<forall>(scoringScheme, table)\<in>set hitDict. \<forall>level\<in>set levels.
             \<exists>c. dict_get table (py_str level) = Some c \<and> \<bar>c\<bar> \<le> 2 ^ 1000"
  shows "\<exists>frequencies. calculateFrequencies hitDict = Inr frequencies
           \<and> map fst frequencies = map fst hitDict"
proof -
  define cnt where "cnt = (\<lambda>table :: (string, int) dict.
     map (\<lambda>nr. the (dict_get table (py_str nr))) levels)"
  have lc: "levelCounts table = Inr (cnt table)" if "(s, table) \<in> set hitDict" for s table
    unfolding cnt_def using assms that by (intro levelCounts_value) fastforce
  have l: "collect (\<lambda>(scoringScheme, table).
               case levelCounts table of Inl e \<Rightarrow> Inl e | Inr l \<Rightarrow> Inr (scoringScheme, l))
             hitDict = Inr (map (\<lambda>(s, table). (s, cnt table)) hitDict)"
  proof (rule collect_map)
    fix x assume xin: "x \<in> set hitDict"
    obtain s table where x: "x = (s, table)" by (cases x)
    with xin have m: "(s, table) \<in> set hitDict" by simp
    from lc [OF m] show "(case x of (scoringScheme, table) \<Rightarrow>
               case levelCounts table of Inl e \<Rightarrow> Inl e | Inr l \<Rightarrow> Inr (scoringScheme, l))
             = Inr (case x of (s, table) \<Rightarrow> (s, cnt table))"
      unfolding x by simp
  qed
  have sf: "\<exists>f. schemeFrequencies (cnt table) = Inr f" if "(s, table) \<in> set hitDict" for s table
  proof -
    have "length (cnt table) = 22" by (simp add: cnt_def length_levels)
    moreover have "\<forall>c\<in>set (cnt table). \<bar>c\<bar> \<le> 2 ^ 1000"
      unfolding cnt_def using assms that by fastforce
    ultimately show ?thesis using schemeFrequencies_value by blast
  qed
  have c: "collect (\<lambda>(scoringScheme, res).
               case schemeFrequencies res of
                 Inl e \<Rightarrow> Inl e
               | Inr f \<Rightarrow> Inr (scoringScheme, f))
            (map (\<lambda>(s, table). (s, cnt table)) hitDict)
          = Inr (map (\<lambda>(s, res). (s, projr (schemeFrequencies res)))
                  (map (\<lambda>(s, table). (s, cnt table)) hitDict))"
  proof (rule collect_map)
    fix x assume "x \<in> set (map (\<lambda>(s, table). (s, cnt table)) hitDict)"
    then obtain s table where x: "x = (s, cnt table)" and m: "(s, table) \<in> set hitDict"
      by auto
    from sf [OF m] obtain f where "schemeFrequencies (cnt table) = Inr f" by blast
    then show "(case x of (scoringScheme, res) \<Rightarrow>
               case schemeFrequencies res of
                 Inl e \<Rightarrow> Inl e
               | Inr f \<Rightarrow> Inr (scoringScheme, f))
             = Inr (case x of (s, res) \<Rightarrow> (s, projr (schemeFrequencies res)))"
      unfolding x by simp
  qed
  have "calculateFrequencies hitDict = Inr (map (\<lambda>(s, res). (s, projr (schemeFrequencies res)))
                  (map (\<lambda>(s, table). (s, cnt table)) hitDict))"
    unfolding calculateFrequencies_def l using c by simp
  moreover have "map fst (map (\<lambda>(s, res). (s, projr (schemeFrequencies res)))
                  (map (\<lambda>(s, table). (s, cnt table)) hitDict)) = map fst hitDict"
    by (simp add: comp_def case_prod_unfold)
  ultimately show ?thesis by blast
qed

text \<open>
  Claim C6. No ZeroDivisionError leaves \<open>calculateFrequencies\<close>. In every result the
  denominator \<open>tp + fn\<close> of \<open>tpr\<close> is \<open>594 * (i + 1)\<close> and positive; where \<open>fp + tn\<close> is 0,
  which is so at index 21, \<open>fpr\<close> and \<open>spc\<close> are 0. When every table has the 22 levels with
  counts from 0 to \<open>2 ^ 1000\<close>, the function returns a result for the same schemes.
\<close>
theorem calculateFrequencies_divisions_safe:
  "calculateFrequencies hitDict \<noteq> Inl ZeroDivisionError
   \<and> (\<forall>frequencies scoringScheme f i.
         calculateFrequencies hitDict = Inr frequencies \<and> (scoringScheme, f) \<in> set frequencies
           \<and> i < 22 \<longrightarrow>
         tps f ! i + fns f ! i = 594 * (int i + 1) \<and> 0 < tps f ! i + fns f ! i
         \<and> (fps f ! i + tns f ! i = 0 \<longrightarrow> fprs f ! i = 0 \<and> spcs f ! i = 0)
         \<and> fps f ! 21 + tns f ! 21 = 0)
   \<and> ((\<forall>(scoringScheme, table)\<in>set hitDict. \<forall>level\<in>set levels.
          \<exists>c. dict_get table (py_str level) = Some c \<and> 0 \<le> c \<and> c \<le> 2 ^ 1000) \<longrightarrow>
        (\<exists>frequencies. calculateFrequencies hitDict = Inr frequencies
           \<and> map fst frequencies = map fst hitDict))"
proof (intro conjI allI impI)
  show "calculateFrequencies hitDict \<noteq> Inl ZeroDivisionError"
    using calculateFrequencies_error [of hitDict ZeroDivisionError] by auto
next
  fix frequencies scoringScheme f and i :: nat
  assume a: "calculateFrequencies hitDict = Inr frequencies \<and> (scoringScheme, f) \<in> set frequencies
           \<and> i < 22"
  then have c: "calculateFrequencies hitDict = Inr frequencies"
    and m: "(scoringScheme, f) \<in> set frequencies" and i: "i < 22" by simp_all
  from calculateFrequencies_row [OF c m i] obtain r where
    r: "frequencies_at (raw f) i = Inr r" and
    e: "fprs f ! i = row_fpr r" "spcs f ! i = row_spc r"
       "tps f ! i = row_tp r" "tns f ! i = row_tn r" "fps f ! i = row_fp r" "fns f ! i = row_fn r"
    by blast
  from frequencies_at_counts [OF r] e
  show s: "tps f ! i + fns f ! i = 594 * (int i + 1)" by simp
  then show "0 < tps f ! i + fns f ! i" by simp
  {
    assume "fps f ! i + tns f ! i = 0"
    then have "row_tn r + row_fp r = 0" using e by simp
    from frequencies_at_degenerate [OF r this] e
    show "fprs f ! i = 0" "spcs f ! i = 0" by simp_all
  }
  have l: "(21::nat) < 22" by simp
  from calculateFrequencies_row [OF c m l] obtain r' where
    r': "frequencies_at (raw f) 21 = Inr r'" and
    e': "tns f ! 21 = row_tn r'" "fps f ! 21 = row_fp r'"
    by blast
  from frequencies_at_counts [OF r'] e' show "fps f ! 21 + tns f ! 21 = 0" by simp
next
  assume h: "\<forall>(scoringScheme, table)\<in>set hitDict. \<forall>level\<in>set levels.
          \<exists>c. dict_get table (py_str level) = Some c \<and> 0 \<le> c \<and> c \<le> 2 ^ 1000"
  have "\<forall>(scoringScheme, table)\<in>set hitDict. \<forall>level\<in>set levels.
             \<exists>c. dict_get table (py_str level) = Some c \<and> \<bar>c\<bar> \<le> 2 ^ 1000"
    using h by fastforce
  then show "\<exists>frequencies. calculateFrequencies hitDict = Inr frequencies
           \<and> map fst frequencies = map fst hitDict"
    by (rule calculateFrequencies_returns)
qed

lemma collect_comp: "collect (\<lambda>x. g (h x)) xs = collect g (map h xs)"
  by (induction xs) (auto split: sum.splits)

lemma levelCounts_keys:
  "levelCounts table =
     collect (\<lambda>k. case dict_get table k of None \<Rightarrow> Inl KeyError | Some c \<Rightarrow> Inr c)
       [''100'', ''99'', ''95'', ''90'', ''85'', ''80'', ''75'', ''70'', ''65'', ''60'', ''55'',
        ''50'', ''45'', ''40'', ''35'', ''30'', ''25'', ''20'', ''15'', ''10'', ''5'', ''0'']"
  unfolding levelCounts_def
  by (simp only: collect_comp [of "\<lambda>k. case dict_get table k of None \<Rightarrow> Inl KeyError | Some c \<Rightarrow> Inr c"
        py_str levels] levels_str)

lemma levelCounts_single:
  "levelCounts (dict_set readsPerLevel_init ''100'' c) =
     Inr [c, 0, 0, 0, 0, 0, 0, 0, 0, 0, 0, 0, 0, 0, 0, 0, 0, 0, 0, 0, 0, 0]"
  by (simp add: levelCounts_keys dict_get_def dict_set_def readsPerLevel_init_def)

lemma upt_22: "[0..<22] = [0, 1, 2, 3, 4, 5, 6, 7, 8, 9, 10, 11, 12, 13, 14, 15, 16, 17, 18, 19, 20, 21]"
  by code_simp

lemma schemeFrequencies_single:
  assumes "\<bar>c\<bar> < 2 ^ 53"
  shows "schemeFrequencies [c, 0, 0, 0, 0, 0, 0, 0, 0, 0, 0, 0, 0, 0, 0, 0, 0, 0, 0, 0, 0, 0] = Inr
     \<lparr>fprs = [0, 0, 0, 0, 0, 0, 0, 0, 0, 0, 0, 0, 0, 0, 0, 0, 0, 0, 0, 0, 0, 0],
      tprs = map (\<lambda>i. fl (of_int c / of_int (594 * (int i + 1)))) [0..<22],
      spcs = [1, 1, 1, 1, 1, 1, 1, 1, 1, 1, 1, 1, 1, 1, 1, 1, 1, 1, 1, 1, 1, 0],
      tps = [c, c, c, c, c, c, c, c, c, c, c, c, c, c, c, c, c, c, c, c, c, c],
      tns = map (\<lambda>i. 594 * (21 - int i)) [0..<22],
      fps = [0, 0, 0, 0, 0, 0, 0, 0, 0, 0, 0, 0, 0, 0, 0, 0, 0, 0, 0, 0, 0, 0],
      fns = map (\<lambda>i. 594 * (int i + 1) - c) [0..<22],
      raw = [c, 0, 0, 0, 0, 0, 0, 0, 0, 0, 0, 0, 0, 0, 0, 0, 0, 0, 0, 0, 0, 0]\<rparr>"
proof -
  have "(2::int) ^ 53 \<le> 2 ^ 1000" by simp
  with assms have b: "\<bar>c\<bar> \<le> 2 ^ 1000" by linarith
  have fc: "fl (of_int c) = of_int c" using assms by (rule fl_of_int)
  have d: "fl (x / x) = 1" if "x \<noteq> 0" for x :: rat using that by (simp add: fl_1)
  show ?thesis
    using b by (subst schemeFrequencies_value) (simp_all add: upt_22 fc fl_0 fl_1 fl_numeral)
qed

lemma calculateFrequencies_single:
  assumes "\<bar>c\<bar> < 2 ^ 53"
  shows "calculateFrequencies [(s, dict_set readsPerLevel_init ''100'' c)] = Inr [(s,
     \<lparr>fprs = [0, 0, 0, 0, 0, 0, 0, 0, 0, 0, 0, 0, 0, 0, 0, 0, 0, 0, 0, 0, 0, 0],
      tprs = map (\<lambda>i. fl (of_int c / of_int (594 * (int i + 1)))) [0..<22],
      spcs = [1, 1, 1, 1, 1, 1, 1, 1, 1, 1, 1, 1, 1, 1, 1, 1, 1, 1, 1, 1, 1, 0],
      tps = [c, c, c, c, c, c, c, c, c, c, c, c, c, c, c, c, c, c, c, c, c, c],
      tns = map (\<lambda>i. 594 * (21 - int i)) [0..<22],
      fps = [0, 0, 0, 0, 0, 0, 0, 0, 0, 0, 0, 0, 0, 0, 0, 0, 0, 0, 0, 0, 0, 0],
      fns = map (\<lambda>i. 594 * (int i + 1) - c) [0..<22],
      raw = [c, 0, 0, 0, 0, 0, 0, 0, 0, 0, 0, 0, 0, 0, 0, 0, 0, 0, 0, 0, 0, 0]\<rparr>)]"
  by (simp add: calculateFrequencies_def levelCounts_single schemeFrequencies_single [OF assms])

lemma fl_half: "fl (1 / 2) = 1 / 2"
  by code_simp

text \<open>
  Claim C1 as it is stated, that \<open>tpr\<close> never decreases, fails for 594 reads at level 100
  and none elsewhere: the first rate is 1 and the second is 1/2.
\<close>
theorem calculateFrequencies_tpr_counterexample:
  "map_sum id (map (map_prod id (take 2 \<circ> tprs)))
     (calculateFrequencies [(''blastn4-545'', dict_set readsPerLevel_init ''100'' 594)])
   = Inr [(''blastn4-545'', [1, 1 / 2])]"
proof -
  have "\<bar>594::int\<bar> < 2 ^ 53" by simp
  from calculateFrequencies_single [OF this, of "''blastn4-545''"] show ?thesis
    by (simp add: upt_22 fl_1 fl_half)
qed

lemma frequencies_594:
  "calculateFrequencies [(''blastn4-545'', dict_set readsPerLevel_init ''100'' 594)] =
     Inr [(''blastn4-545'',
           snd (hd (projr (calculateFrequencies
             [(''blastn4-545'', dict_set readsPerLevel_init ''100'' 594)]))))]
   \<and> raw (snd (hd (projr (calculateFrequencies
             [(''blastn4-545'', dict_set readsPerLevel_init ''100'' 594)]))))
       = [594, 0, 0, 0, 0, 0, 0, 0, 0, 0, 0, 0, 0, 0, 0, 0, 0, 0, 0, 0, 0, 0]"
proof -
  have "\<bar>594::int\<bar> < 2 ^ 53" by simp
  from calculateFrequencies_single [OF this, of "''blastn4-545''"] show ?thesis
    by simp
qed

text \<open>
  An instance of C3: 594 reads at level 100 and none elsewhere, at the indices 1 and 21.
\<close>
theorem calculateFrequencies_conservation_witness:
  "(let f = snd (hd (projr (calculateFrequencies
             [(''blastn4-545'', dict_set readsPerLevel_init ''100'' 594)])))
    in calculateFrequencies [(''blastn4-545'', dict_set readsPerLevel_init ''100'' 594)]
         = Inr [(''blastn4-545'', f)]
       \<and> tps f ! 1 + fns f ! 1 = 1188 \<and> tns f ! 1 + fps f ! 1 = 11880
       \<and> tps f ! 21 + fns f ! 21 = 13068 \<and> tns f ! 21 + fps f ! 21 = 0)"
proof -
  define f where "f = snd (hd (projr (calculateFrequencies
             [(''blastn4-545'', dict_set readsPerLevel_init ''100'' 594)])))"
  have c: "calculateFrequencies [(''blastn4-545'', dict_set readsPerLevel_init ''100'' 594)]
         = Inr [(''blastn4-545'', f)]"
    unfolding f_def using frequencies_594 by simp
  have m: "(''blastn4-545'', f) \<in> set [(''blastn4-545'', f)]" by simp
  have "(1::nat) < 22" by simp
  from calculateFrequencies_conservation [OF c m this]
  have a: "tps f ! 1 + fns f ! 1 = 1188" "tns f ! 1 + fps f ! 1 = 11880" by simp_all
  have "(21::nat) < 22" by simp
  from calculateFrequencies_conservation [OF c m this]
  have b: "tps f ! 21 + fns f ! 21 = 13068" "tns f ! 21 + fps f ! 21 = 0" by simp_all
  from a b c show ?thesis unfolding f_def Let_def by simp
qed

text \<open>
  An instance of C1 as amended: 594 reads at level 100, at the indices 0 and 21.
\<close>
theorem calculateFrequencies_tps_mono_witness:
  "(let f = snd (hd (projr (calculateFrequencies
             [(''blastn4-545'', dict_set readsPerLevel_init ''100'' 594)])))
    in calculateFrequencies [(''blastn4-545'', dict_set readsPerLevel_init ''100'' 594)]
         = Inr [(''blastn4-545'', f)]
       \<and> list_all ((\<le>) 0) (raw f) \<and> tps f ! 0 \<le> tps f ! 21)"
proof -
  define f where "f = snd (hd (projr (calculateFrequencies
             [(''blastn4-545'', dict_set readsPerLevel_init ''100'' 594)])))"
  have c: "calculateFrequencies [(''blastn4-545'', dict_set readsPerLevel_init ''100'' 594)]
         = Inr [(''blastn4-545'', f)]"
    unfolding f_def using frequencies_594 by simp
  have m: "(''blastn4-545'', f) \<in> set [(''blastn4-545'', f)]" by simp
  have r: "raw f = [594, 0, 0, 0, 0, 0, 0, 0, 0, 0, 0, 0, 0, 0, 0, 0, 0, 0, 0, 0, 0, 0]"
    unfolding f_def using frequencies_594 by simp
  have n: "\<forall>c\<in>set (raw f). 0 \<le> c" unfolding r by simp
  have ij: "(0::nat) \<le> 21" "(21::nat) < 22" by simp_all
  from calculateFrequencies_tps_mono [OF c m n ij] have "tps f ! 0 \<le> tps f ! 21" .
  moreover have "list_all ((\<le>) 0) (raw f)" unfolding r by simp
  ultimately show ?thesis using c unfolding f_def Let_def by simp
qed

text \<open>
  An instance of C6: 594 reads at level 100, at index 21, where \<open>fp + tn\<close> is 0.
\<close>
theorem calculateFrequencies_divisions_safe_witness:
  "(let hitDict = [(''blastn4-545'', dict_set readsPerLevel_init ''100'' 594)];
        f = snd (hd (projr (calculateFrequencies hitDict)))
    in calculateFrequencies hitDict = Inr [(''blastn4-545'', f)]
       \<and> calculateFrequencies hitDict \<noteq> Inl ZeroDivisionError
       \<and> tps f ! 21 + fns f ! 21 = 13068 \<and> fps f ! 21 + tns f ! 21 = 0
       \<and> fprs f ! 21 = 0 \<and> spcs f ! 21 = 0
       \<and> list_all (\<lambda>level. dict_get (dict_set readsPerLevel_init ''100'' 594) (py_str level)
                      \<noteq> None) levels)"
proof -
  define hitDict where "hitDict = [(''blastn4-545'', dict_set readsPerLevel_init ''100'' 594)]"
  define f where "f = snd (hd (projr (calculateFrequencies hitDict)))"
  have k: "list_all (\<lambda>k. \<exists>c. dict_get (dict_set readsPerLevel_init ''100'' 594) k = Some c
                            \<and> 0 \<le> c \<and> c \<le> 2 ^ 1000) (map py_str levels)"
    unfolding levels_str by (simp add: dict_get_def dict_set_def readsPerLevel_init_def)
  then have h: "\<forall>(scoringScheme, table)\<in>set hitDict. \<forall>level\<in>set levels.
          \<exists>c. dict_get table (py_str level) = Some c \<and> 0 \<le> c \<and> c \<le> 2 ^ 1000"
    unfolding hitDict_def by (simp add: list_all_iff)
  from calculateFrequencies_divisions_safe [of hitDict] h
  obtain frequencies where fr: "calculateFrequencies hitDict = Inr frequencies"
    and ks: "map fst frequencies = map fst hitDict"
    by blast
  from ks obtain g where g: "frequencies = [(''blastn4-545'', g)]"
    unfolding hitDict_def by (cases frequencies) auto
  from fr g have c: "calculateFrequencies hitDict = Inr [(''blastn4-545'', f)]"
    unfolding f_def by simp
  have m: "(''blastn4-545'', f) \<in> set [(''blastn4-545'', f)]" by simp
  from calculateFrequencies_divisions_safe [of hitDict]
  have nz: "calculateFrequencies hitDict \<noteq> Inl ZeroDivisionError" by blast
  have i: "(21::nat) < 22" by simp
  from calculateFrequencies_divisions_safe [of hitDict]
  have "calculateFrequencies hitDict = Inr [(''blastn4-545'', f)]
          \<and> (''blastn4-545'', f) \<in> set [(''blastn4-545'', f)] \<and> (21::nat) < 22 \<longrightarrow>
        tps f ! 21 + fns f ! 21 = 594 * (int 21 + 1) \<and> 0 < tps f ! 21 + fns f ! 21
        \<and> (fps f ! 21 + tns f ! 21 = 0 \<longrightarrow> fprs f ! 21 = 0 \<and> spcs f ! 21 = 0)
        \<and> fps f ! 21 + tns f ! 21 = 0"
    by blast
  with c m i have s: "tps f ! 21 + fns f ! 21 = 594 * (int 21 + 1)"
    and z: "fps f ! 21 + tns f ! 21 = 0"
    and d: "fps f ! 21 + tns f ! 21 = 0 \<longrightarrow> fprs f ! 21 = 0 \<and> spcs f ! 21 = 0"
    by blast+
  have "list_all (\<lambda>level. dict_get (dict_set readsPerLevel_init ''100'' 594) (py_str level)
                      \<noteq> None) levels"
    using k by (auto simp: list_all_iff)
  with c nz s z d show ?thesis unfolding f_def hitDict_def Let_def by simp
qed

section \<open>Properties of computePercentId\<close>

lemma fl_error: "\<bar>fl x - x\<bar> \<le> \<bar>x\<bar> / 2 ^ 53"
proof (cases "x = 0")
  case True
  then show ?thesis by (simp add: fl_0)
next
  case False
  define e where "e = ilog2 \<bar>x\<bar> - 52"
  define y where "y = x / pow2 e"
  have p: "0 < pow2 e" by (rule pow2_pos)
  have ax: "0 < \<bar>x\<bar>" using False by simp
  have f: "fl x = of_int (round_half_even y) * pow2 e"
    using False by (simp add: fl_def y_def e_def Let_def)
  have x: "x = y * pow2 e" using p by (simp add: y_def)
  have "fl x - x = (of_int (round_half_even y) - y) * pow2 e"
    by (metis f x left_diff_distrib)
  then have "\<bar>fl x - x\<bar> = \<bar>of_int (round_half_even y) - y\<bar> * pow2 e"
    using p by (simp add: abs_mult)
  also have "\<dots> \<le> 1 / 2 * pow2 e"
    using round_half_even_error [of y] p by (intro mult_right_mono) simp_all
  finally have a: "\<bar>fl x - x\<bar> \<le> pow2 e / 2" by simp
  from scaled_bounds [OF ax] have "2 ^ 52 \<le> \<bar>x\<bar> / pow2 e" unfolding e_def by simp
  then have "2 ^ 52 * pow2 e \<le> \<bar>x\<bar>" using p by (simp add: field_simps)
  then have "pow2 e / 2 \<le> \<bar>x\<bar> / 2 ^ 53" by (simp add: field_simps)
  with a show ?thesis by linarith
qed

lemma fl_nonneg: "0 \<le> x \<Longrightarrow> 0 \<le> fl x"
  using fl_pos [of x] by (cases "x = 0") (auto simp: fl_0 less_imp_le)

lemma count_identical_filter:
  "count_identical bases identical =
     identical + int (length (filter (\<lambda>(queryBase, subjectBase). queryBase = subjectBase) bases))"
  by (induction bases arbitrary: identical) auto

lemma twice_rounded:
  assumes "0 \<le> q"
  shows "\<bar>fl (fl q * 100) - 100 * q\<bar> \<le> 100 * q / 2 ^ 51"
proof -
  define u :: rat where "u = 1 / 2 ^ 53"
  have u: "0 < u" "u \<le> 1" unfolding u_def by simp_all
  from fl_error [of q] assms have e1: "\<bar>fl q - q\<bar> \<le> q * u" by (simp add: u_def)
  have q': "0 \<le> fl q" using assms by (rule fl_nonneg)
  from e1 have q'u: "fl q \<le> q * (1 + u)" by (simp add: algebra_simps abs_le_iff)
  from fl_error [of "fl q * 100"] q' have e2: "\<bar>fl (fl q * 100) - fl q * 100\<bar> \<le> fl q * 100 * u"
    by (simp add: u_def)
  have "fl q * 100 * u \<le> q * (1 + u) * 100 * u"
    using q'u u by (intro mult_right_mono) simp_all
  with e2 have e3: "\<bar>fl (fl q * 100) - fl q * 100\<bar> \<le> q * (1 + u) * 100 * u" by linarith
  have "fl (fl q * 100) - 100 * q = (fl (fl q * 100) - fl q * 100) + 100 * (fl q - q)"
    by simp
  then have "\<bar>fl (fl q * 100) - 100 * q\<bar> \<le> \<bar>fl (fl q * 100) - fl q * 100\<bar> + \<bar>100 * (fl q - q)\<bar>"
    by (simp only: abs_triangle_ineq)
  also have "\<bar>100 * (fl q - q)\<bar> = 100 * \<bar>fl q - q\<bar>" by (simp only: abs_mult abs_numeral)
  finally have "\<bar>fl (fl q * 100) - 100 * q\<bar> \<le> \<bar>fl (fl q * 100) - fl q * 100\<bar> + 100 * \<bar>fl q - q\<bar>" .
  also have "\<dots> \<le> q * (1 + u) * 100 * u + 100 * (q * u)"
  proof -
    from e1 have "100 * \<bar>fl q - q\<bar> \<le> 100 * (q * u)" by simp
    with e3 show ?thesis by (rule add_mono)
  qed
  also have "\<dots> = 100 * q * (u * (2 + u))" by (simp add: algebra_simps)
  also have "\<dots> \<le> 100 * q * (4 * u)"
  proof -
    have "u * (2 + u) \<le> 4 * u" using u by (simp add: algebra_simps)
    then show ?thesis using assms by (intro mult_left_mono) simp_all
  qed
  also have "\<dots> = 100 * q / 2 ^ 51" unfolding u_def by simp
  finally show ?thesis .
qed

text \<open>
  Claim C9, as the code has it. Let the first high-scoring pair hold a query of length \<open>L\<close>
  and let \<open>k\<close> positions of query and subject be identical. With \<open>L = 0\<close>
  \<open>computePercentId\<close> raises ZeroDivisionError. With \<open>0 < L < 2 ^ 53\<close> it returns the
  float product of 100 and the float quotient \<open>k / L\<close>, each of the two rounded to binary64:
  the result differs from \<open>100 * k / L\<close> by at most the fraction \<open>2 ^ - 51\<close> of it, and it is
  exactly 100 when \<open>k = L\<close> and exactly 0 when \<open>k = 0\<close>.
\<close>
theorem computePercentId_rounded:
  assumes "hsps alignment = h # hs"
  defines "L \<equiv> length (hsp_query h)"
      and "k \<equiv> length (filter (\<lambda>(queryBase, subjectBase). queryBase = subjectBase)
                          (zip (hsp_query h) (sbjct h)))"
  shows "(L = 0 \<longrightarrow> computePercentId alignment = Inl ZeroDivisionError)
       \<and> (0 < L \<and> L < 2 ^ 53 \<longrightarrow>
            computePercentId alignment = Inr (fl (fl (of_nat k / of_nat L) * 100))
            \<and> \<bar>fl (fl (of_nat k / of_nat L) * 100) - 100 * of_nat k / of_nat L\<bar>
                  \<le> 100 * of_nat k / of_nat L / 2 ^ 51
            \<and> (k = L \<longrightarrow> computePercentId alignment = Inr 100)
            \<and> (k = 0 \<longrightarrow> computePercentId alignment = Inr 0))"
proof (intro conjI impI)
  have i: "py_index (hsps alignment) 0 = Inr h" using assms(1) by (simp add: py_index_def)
  have c: "count_identical (zip (hsp_query h) (sbjct h)) 0 = int k"
    by (simp add: count_identical_filter k_def)
  {
    assume "L = 0"
    then have "py_float (int (length (hsp_query h))) = Inr 0"
      by (simp add: L_def py_float_def fl_0)
    moreover have "k = 0" using \<open>L = 0\<close> by (simp add: k_def L_def)
    then have "py_float (int k) = Inr 0" by (simp add: py_float_def fl_0)
    ultimately show "computePercentId alignment = Inl ZeroDivisionError"
      by (simp add: computePercentId_def i c py_truediv_def)
  }
  assume b: "0 < L \<and> L < 2 ^ 53"
  have kL: "k \<le> L" unfolding k_def L_def
    by (rule order_trans [OF length_filter_le]) simp
  have "int L < 2 ^ 53" using b by (metis of_nat_less_iff of_nat_numeral of_nat_power)
  then have fL: "py_float (int (length (hsp_query h))) = Inr (of_nat L)"
    using py_float_exact [of "int L"] by (simp add: L_def)
  from \<open>int L < 2 ^ 53\<close> kL have "int k < 2 ^ 53" by linarith
  then have fk: "py_float (int k) = Inr (of_nat k)"
    using py_float_exact [of "int k"] by simp
  have nz: "rat_of_nat L \<noteq> 0" using b by simp
  show v: "computePercentId alignment = Inr (fl (fl (of_nat k / of_nat L) * 100))"
    using nz by (simp add: computePercentId_def i c fL fk py_truediv_def)
  have "(0::rat) \<le> of_nat k / of_nat L" by simp
  from twice_rounded [OF this]
  show "\<bar>fl (fl (of_nat k / of_nat L) * 100) - 100 * of_nat k / of_nat L\<bar>
                  \<le> 100 * of_nat k / of_nat L / 2 ^ 51"
    by simp
  {
    assume "k = L"
    then have "rat_of_nat k / of_nat L = 1" using nz by simp
    then show "computePercentId alignment = Inr 100"
      unfolding v by (simp add: fl_1 fl_numeral)
  }
  {
    assume "k = 0"
    then show "computePercentId alignment = Inr 0"
      unfolding v by (simp add: fl_0)
  }
qed

lemma percent_23_24:
  "fl (23 / 24) = 8631899285793451 / 9007199254740992"
  "fl (215797482144836275 / 2251799813685248) = 3371835658513067 / 35184372088832"
  "fl (575 / 6) = 6743671317026133 / 70368744177664"
  by code_simp+

text \<open>
  Claim C9 as it is stated, that the result is exactly \<open>100 * k / L\<close>, fails on the strings of
  the repository's own test \<^verbatim>\<open>testComputePercentIdRealistic\<close>, with \<open>k = 23\<close> and
  \<open>L = 24\<close>: the result is the float 95.83333333333334 that the test expects, which is
  neither the number \<open>100 * 23 / 24\<close> nor the float nearest to it, 95.83333333333333.
\<close>
theorem computePercentId_counterexample:
  "computePercentId
     \<lparr>hsps = [\<lparr>bits = 20, hsp_query = ''TACCCTGCGGCCCGCTACGGCTGG'',
               sbjct = ''TACCCTGCGGCCCGC-ACGGCTGG''\<rparr>]\<rparr>
     = Inr (3371835658513067 / 35184372088832)
   \<and> length ''TACCCTGCGGCCCGCTACGGCTGG'' = 24
   \<and> count_identical (zip ''TACCCTGCGGCCCGCTACGGCTGG'' ''TACCCTGCGGCCCGC-ACGGCTGG'') 0 = 23
   \<and> (3371835658513067 / 35184372088832 :: rat) \<noteq> 100 * 23 / 24
   \<and> (3371835658513067 / 35184372088832 :: rat) \<noteq> fl (100 * 23 / 24)"
proof -
  have f24: "py_float 24 = Inr 24" using py_float_exact [of 24] by simp
  have f23: "py_float 23 = Inr 23" using py_float_exact [of 23] by simp
  show ?thesis
    by (simp add: computePercentId_def py_index_def f24 f23 py_truediv_def percent_23_24)
qed

text \<open>
  Instances of C9 as amended: an empty query, and the strings of the three tests of the
  repository.
\<close>
theorem computePercentId_rounded_witness:
  "computePercentId \<lparr>hsps = [\<lparr>bits = 20, hsp_query = '''', sbjct = ''''\<rparr>]\<rparr>
     = Inl ZeroDivisionError
   \<and> computePercentId
       \<lparr>hsps = [\<lparr>bits = 20, hsp_query = ''TACCCTGCGGCCCGCTACGGCTGG'',
                 sbjct = ''TACCCTGCGGCCCGC-ACGGCTGG''\<rparr>]\<rparr>
       = Inr (fl (fl (23 / 24) * 100))
   \<and> \<bar>fl (fl (23 / 24) * 100) - 100 * 23 / 24\<bar> \<le> 100 * 23 / 24 / 2 ^ 51
   \<and> computePercentId
       \<lparr>hsps = [\<lparr>bits = 20, hsp_query = ''TACCCTGCGGCCCGCTACGGCTGG'',
                 sbjct = ''TACCCTGCGGCCCGCTACGGCTGG''\<rparr>]\<rparr>
       = Inr 100
   \<and> computePercentId
       \<lparr>hsps = [\<lparr>bits = 20, hsp_query = ''TACCCTGCGGCCCGCTACGGCTGG'',
                 sbjct = ''------------------------''\<rparr>]\<rparr>
       = Inr 0"
proof -
  have l: "(24::nat) < 2 ^ 53" by simp
  have a: "computePercentId \<lparr>hsps = [\<lparr>bits = 20, hsp_query = '''', sbjct = ''''\<rparr>]\<rparr>
     = Inl ZeroDivisionError"
    using computePercentId_rounded
      [of "\<lparr>hsps = [\<lparr>bits = 20, hsp_query = '''', sbjct = ''''\<rparr>]\<rparr>"
          "\<lparr>bits = 20, hsp_query = '''', sbjct = ''''\<rparr>" "[]"]
    by simp
  have b: "computePercentId
       \<lparr>hsps = [\<lparr>bits = 20, hsp_query = ''TACCCTGCGGCCCGCTACGGCTGG'',
                 sbjct = ''TACCCTGCGGCCCGC-ACGGCTGG''\<rparr>]\<rparr>
       = Inr (fl (fl (23 / 24) * 100))
     \<and> \<bar>fl (fl (23 / 24) * 100) - 100 * 23 / 24\<bar> \<le> 100 * 23 / 24 / 2 ^ 51"
    using l computePercentId_rounded
      [of "\<lparr>hsps = [\<lparr>bits = 20, hsp_query = ''TACCCTGCGGCCCGCTACGGCTGG'',
                 sbjct = ''TACCCTGCGGCCCGC-ACGGCTGG''\<rparr>]\<rparr>"
          "\<lparr>bits = 20, hsp_query = ''TACCCTGCGGCCCGCTACGGCTGG'',
                 sbjct = ''TACCCTGCGGCCCGC-ACGGCTGG''\<rparr>" "[]"]
    by simp
  have c: "computePercentId
       \<lparr>hsps = [\<lparr>bits = 20, hsp_query = ''TACCCTGCGGCCCGCTACGGCTGG'',
                 sbjct = ''TACCCTGCGGCCCGCTACGGCTGG''\<rparr>]\<rparr>
       = Inr 100"
    using l computePercentId_rounded
      [of "\<lparr>hsps = [\<lparr>bits = 20, hsp_query = ''TACCCTGCGGCCCGCTACGGCTGG'',
                 sbjct = ''TACCCTGCGGCCCGCTACGGCTGG''\<rparr>]\<rparr>"
          "\<lparr>bits = 20, hsp_query = ''TACCCTGCGGCCCGCTACGGCTGG'',
                 sbjct = ''TACCCTGCGGCCCGCTACGGCTGG''\<rparr>" "[]"]
    by (simp add: fl_1 fl_numeral)
  have d: "computePercentId
       \<lparr>hsps = [\<lparr>bits = 20, hsp_query = ''TACCCTGCGGCCCGCTACGGCTGG'',
                 sbjct = ''------------------------''\<rparr>]\<rparr>
       = Inr 0"
    using l computePercentId_rounded
      [of "\<lparr>hsps = [\<lparr>bits = 20, hsp_query = ''TACCCTGCGGCCCGCTACGGCTGG'',
                 sbjct = ''------------------------''\<rparr>]\<rparr>"
          "\<lparr>bits = 20, hsp_query = ''TACCCTGCGGCCCGCTACGGCTGG'',
                 sbjct = ''------------------------''\<rparr>" "[]"]
    by (simp add: fl_0)
  from a b c d show ?thesis by blast
qed

section \<open>Properties of areaUnderCurve\<close>

lemma new_frequencies_heap:
  "fst (new_frequencies h frequencies) = h @ concat (map (\<lambda>(s, f). scheme_lists f) frequencies)"
proof (induction frequencies arbitrary: h)
  case Nil
  then show ?case by simp
next
  case (Cons p frequencies)
  obtain s f where p: "p = (s, f)" by (cases p)
  obtain h' objects where n: "new_frequencies (h @ scheme_lists f) frequencies = (h', objects)"
    by (cases "new_frequencies (h @ scheme_lists f) frequencies")
  from Cons.IH [of "h @ scheme_lists f"] n show ?case unfolding p by simp
qed

lemma new_frequencies_objects:
  "length h = length h' \<Longrightarrow>
     snd (new_frequencies h frequencies) = snd (new_frequencies h' frequencies)"
proof (induction frequencies arbitrary: h h')
  case Nil
  then show ?case by simp
next
  case (Cons p frequencies)
  obtain s f where p: "p = (s, f)" by (cases p)
  have "length (h @ scheme_lists f) = length (h' @ scheme_lists f)" using Cons.prems by simp
  from Cons.IH [OF this] Cons.prems show ?case
    unfolding p
    by (cases "new_frequencies (h @ scheme_lists f) frequencies";
        cases "new_frequencies (h' @ scheme_lists f) frequencies") simp
qed

lemma new_frequencies_Cons:
  "new_frequencies h ((s, f) # frequencies) =
     (fst (new_frequencies (h @ scheme_lists f) frequencies),
      (s, scheme_objects (length h)) # snd (new_frequencies (h @ scheme_lists f) frequencies))"
  by (cases "new_frequencies (h @ scheme_lists f) frequencies") simp

lemma length_scheme_lists: "length (scheme_lists f) = 8"
  by (simp add: scheme_lists_def)

text \<open>One pass of the loop on the lists of a scheme that lie behind \<open>h\<close>.\<close>

lemma areaUnderCurve_scheme_new:
  "areaUnderCurve_scheme tz (h @ scheme_lists f @ t) (scheme_objects (length h)) =
     (h @ scheme_lists (f\<lparr>fprs := 1 # fprs f @ [0], tprs := 1 # tprs f @ [0]\<rparr>) @ t,
      case tz (1 # tprs f @ [0]) (1 # fprs f @ [0]) of
        Inl e \<Rightarrow> Inl e
      | Inr y_int \<Rightarrow> Inr (fl (y_int * - 1)))"
proof -
  have x: "dict_get (scheme_objects (length h)) ''fprs'' = Some (length h)"
    and y: "dict_get (scheme_objects (length h)) ''tprs'' = Some (length h + 1)"
    by (simp_all add: dict_get_def scheme_objects_def)
  obtain a b rest where l: "scheme_lists f = a # b # rest" and a: "a = fprs f" and b: "b = tprs f"
    and l': "scheme_lists (f\<lparr>fprs := 1 # fprs f @ [0], tprs := 1 # tprs f @ [0]\<rparr>)
              = (1 # fprs f @ [0]) # (1 # tprs f @ [0]) # rest"
    by (simp add: scheme_lists_def)
  show ?thesis
    unfolding areaUnderCurve_scheme_def x y l l' option.case Let_def
    by (simp add: py_append_def py_insert0_def nth_append list_update_append a b)
qed

lemma dict_set_fresh: "k \<notin> fst ` set d \<Longrightarrow> dict_set d k v = d @ [(k, v)]"
  unfolding dict_set_def by (induction d) auto

lemma areaUnderCurve_loop_new:
  assumes "distinct (map fst frequencies)"
      and "fst ` set frequencies \<inter> fst ` set acc = {}"
      and "\<forall>(s, f)\<in>set frequencies. \<exists>v. tz (1 # tprs f @ [0]) (1 # fprs f @ [0]) = Inr v"
  shows "areaUnderCurve_loop tz (fst (new_frequencies h frequencies))
           (snd (new_frequencies h frequencies)) acc =
     (fst (new_frequencies h
        (map (\<lambda>(s, f). (s, f\<lparr>fprs := 1 # fprs f @ [0], tprs := 1 # tprs f @ [0]\<rparr>)) frequencies)),
      Inr (acc @ map (\<lambda>(s, f). (s, fl (projr (tz (1 # tprs f @ [0]) (1 # fprs f @ [0])) * - 1)))
                   frequencies))"
  using assms
proof (induction frequencies arbitrary: h acc)
  case Nil
  then show ?case by simp
next
  case (Cons p frequencies)
  obtain s f where p: "p = (s, f)" by (cases p)
  define f' where "f' = f\<lparr>fprs := 1 # fprs f @ [0], tprs := 1 # tprs f @ [0]\<rparr>"
  define t where "t = concat (map (\<lambda>(s, f). scheme_lists f) frequencies)"
  from Cons.prems(3) obtain v where v: "tz (1 # tprs f @ [0]) (1 # fprs f @ [0]) = Inr v"
    unfolding p by auto
  define a where "a = fl (v * - 1)"
  have heap: "fst (new_frequencies (h @ scheme_lists f) frequencies) = h @ scheme_lists f @ t"
    by (simp add: new_frequencies_heap t_def)
  have heap': "fst (new_frequencies (h @ scheme_lists f') frequencies) = h @ scheme_lists f' @ t"
    by (simp add: new_frequencies_heap t_def)
  have objs: "snd (new_frequencies (h @ scheme_lists f) frequencies)
                = snd (new_frequencies (h @ scheme_lists f') frequencies)"
    by (rule new_frequencies_objects) (simp add: length_scheme_lists)
  have step: "areaUnderCurve_scheme tz (h @ scheme_lists f @ t) (scheme_objects (length h))
                = (h @ scheme_lists f' @ t, Inr a)"
    by (simp add: areaUnderCurve_scheme_new v a_def f'_def)
  have fresh: "s \<notin> fst ` set acc" using Cons.prems(2) unfolding p by auto
  have d: "distinct (map fst frequencies)" using Cons.prems(1) by simp
  have i: "fst ` set frequencies \<inter> fst ` set (acc @ [(s, a)]) = {}"
    using Cons.prems(1,2) unfolding p by auto
  have r: "\<forall>(s, f)\<in>set frequencies. \<exists>v. tz (1 # tprs f @ [0]) (1 # fprs f @ [0]) = Inr v"
    using Cons.prems(3) by simp
  have "areaUnderCurve_loop tz (fst (new_frequencies h (p # frequencies)))
           (snd (new_frequencies h (p # frequencies))) acc
        = areaUnderCurve_loop tz (fst (new_frequencies (h @ scheme_lists f') frequencies))
           (snd (new_frequencies (h @ scheme_lists f') frequencies)) (acc @ [(s, a)])"
    unfolding p new_frequencies_Cons fst_conv snd_conv heap heap' objs
    by (simp add: step dict_set_fresh [OF fresh])
  also have "\<dots> = (fst (new_frequencies (h @ scheme_lists f')
        (map (\<lambda>(s, f). (s, f\<lparr>fprs := 1 # fprs f @ [0], tprs := 1 # tprs f @ [0]\<rparr>)) frequencies)),
      Inr ((acc @ [(s, a)])
            @ map (\<lambda>(s, f). (s, fl (projr (tz (1 # tprs f @ [0]) (1 # fprs f @ [0])) * - 1)))
                   frequencies))"
    by (rule Cons.IH [OF d i r])
  also have "\<dots> = (fst (new_frequencies h
        (map (\<lambda>(s, f). (s, f\<lparr>fprs := 1 # fprs f @ [0], tprs := 1 # tprs f @ [0]\<rparr>))
           (p # frequencies))),
      Inr (acc @ map (\<lambda>(s, f). (s, fl (projr (tz (1 # tprs f @ [0]) (1 # fprs f @ [0])) * - 1)))
                   (p # frequencies)))"
    unfolding p by (simp add: new_frequencies_Cons f'_def a_def v del: new_frequencies.simps)
  finally show ?case .
qed

lemma trapz_returns: "length y = length x \<Longrightarrow> \<exists>v. trapz y x = Inr v"
  by (simp add: trapz_def)

lemma areaUnderCurve_new:
  assumes "distinct (map fst frequencies)"
      and "\<forall>(s, f)\<in>set frequencies. length (fprs f) = length (tprs f)"
  shows "areaUnderCurve trapz (fst (new_frequencies h frequencies))
           (snd (new_frequencies h frequencies)) =
     (fst (new_frequencies h
        (map (\<lambda>(s, f). (s, f\<lparr>fprs := 1 # fprs f @ [0], tprs := 1 # tprs f @ [0]\<rparr>)) frequencies)),
      Inr (map (\<lambda>(s, f). (s, fl (projr (trapz (1 # tprs f @ [0]) (1 # fprs f @ [0])) * - 1)))
             frequencies))"
proof -
  have "\<forall>(s, f)\<in>set frequencies. \<exists>v. trapz (1 # tprs f @ [0]) (1 # fprs f @ [0]) = Inr v"
    using assms(2) by (auto intro!: trapz_returns)
  from areaUnderCurve_loop_new [OF assms(1) _ this, of "[]" h] show ?thesis
    by (simp add: areaUnderCurve_def)
qed

lemma trapz_terms_flat:
  "length ys = length xs \<Longrightarrow> set xs \<subseteq> {c} \<Longrightarrow>
     trapz_terms (y # ys) (c # xs) = replicate (length xs) 0"
proof (induction xs arbitrary: y ys)
  case Nil
  then show ?case by simp
next
  case (Cons x xs)
  then obtain y' ys' where ys: "ys = y' # ys'" by (cases ys) auto
  from Cons.prems have x: "x = c" and l: "length ys' = length xs" and s: "set xs \<subseteq> {c}"
    unfolding ys by auto
  from Cons.IH [OF l s, of y'] show ?case unfolding ys x by (simp add: fl_0)
qed

lemma foldl_zeros: "fl a = a \<Longrightarrow> foldl (\<lambda>s t. fl (s + t)) a (replicate n 0) = a"
  by (induction n) auto

lemma trapz_zero_fprs:
  assumes "length ys = length zs" and "set zs \<subseteq> {0}"
      and "fl (fl (fl (0 - 1) * fl (y1 + 1)) / 2) = a" and "fl a = a"
  shows "trapz (1 # y1 # ys) (1 # 0 # zs) = Inr a"
proof -
  have "trapz_terms (1 # y1 # ys) (1 # 0 # zs) = a # replicate (length zs) 0"
    using assms(3) trapz_terms_flat [OF assms(1,2), of y1] by simp
  then show ?thesis
    using assms(1,4) by (simp add: trapz_def foldl_zeros)
qed

lemma fl_small:
  "fl (- 1) = - 1" "fl 2 = 2" "fl 3 = 3" "fl (- 2) = - 2" "fl (- 3) = - 3"
  "fl (- 3 / 2) = - 3 / 2" "fl (- (3 / 2)) = - (3 / 2)" "fl (3 / 2) = 3 / 2"
  by code_simp+

lemma trapz_zero_fprs_again:
  assumes "length ys = length zs" and "set zs \<subseteq> {0}"
      and "fl (fl (fl (0 - 1) * fl (y1 + 1)) / 2) = a" and "fl a = a"
  shows "trapz (1 # 1 # y1 # ys) (1 # 1 # 0 # zs) = Inr a"
proof -
  have "trapz_terms (1 # 1 # y1 # ys) (1 # 1 # 0 # zs) = 0 # a # replicate (length zs) 0"
    using assms(3) trapz_terms_flat [OF assms(1,2), of y1] by (simp add: fl_0)
  then show ?thesis
    using assms(1,4) by (simp add: trapz_def foldl_zeros fl_0)
qed

text \<open>
  Claim C2 fails on the code. For the frequencies of 594 reads at level 100, the caller's
  \<open>fprs\<close> list has 22 entries before the first call of \<open>areaUnderCurve\<close>, 24 after it and 26
  after a second call on the same frequencies, and so has the \<open>tprs\<close> list. Both calls return
  the area 1, since the added points span no width.
\<close>
theorem areaUnderCurve_mutates_lists:
  "(let frequencies = projr (calculateFrequencies
                        [(''blastn4-545'', dict_set readsPerLevel_init ''100'' 594)]);
        h = fst (new_frequencies [] frequencies);
        objects = snd (new_frequencies [] frequencies);
        first = areaUnderCurve trapz h objects;
        second = areaUnderCurve trapz (fst first) objects
    in dict_get objects ''blastn4-545'' = Some (scheme_objects 0)
       \<and> dict_get (scheme_objects 0) ''fprs'' = Some 0
       \<and> dict_get (scheme_objects 0) ''tprs'' = Some 1
       \<and> h ! 0 = [0, 0, 0, 0, 0, 0, 0, 0, 0, 0, 0, 0, 0, 0, 0, 0, 0, 0, 0, 0, 0, 0]
       \<and> length (h ! 1) = 22
       \<and> fst first ! 0 = [1, 0, 0, 0, 0, 0, 0, 0, 0, 0, 0, 0, 0, 0, 0, 0, 0, 0, 0, 0, 0, 0, 0, 0]
       \<and> length (fst first ! 1) = 24
       \<and> fst second ! 0 = [1, 1, 0, 0, 0, 0, 0, 0, 0, 0, 0, 0, 0, 0, 0, 0, 0, 0, 0, 0, 0, 0, 0, 0, 0, 0]
       \<and> length (fst second ! 1) = 26
       \<and> snd first = Inr [(''blastn4-545'', 1)]
       \<and> snd second = Inr [(''blastn4-545'', 1)])"
proof -
  define f where "f =
     \<lparr>fprs = [0, 0, 0, 0, 0, 0, 0, 0, 0, 0, 0, 0, 0, 0, 0, 0, 0, 0, 0, 0, 0, 0],
      tprs = map (\<lambda>i. fl (of_int 594 / of_int (594 * (int i + 1)))) [0..<22],
      spcs = [1, 1, 1, 1, 1, 1, 1, 1, 1, 1, 1, 1, 1, 1, 1, 1, 1, 1, 1, 1, 1, 0],
      tps = [594, 594, 594, 594, 594, 594, 594, 594, 594, 594, 594, 594, 594, 594, 594, 594,
             594, 594, 594, 594, 594, 594],
      tns = map (\<lambda>i. 594 * (21 - int i)) [0..<22],
      fps = [0, 0, 0, 0, 0, 0, 0, 0, 0, 0, 0, 0, 0, 0, 0, 0, 0, 0, 0, 0, 0, 0],
      fns = map (\<lambda>i. 594 * (int i + 1) - 594) [0..<22],
      raw = [594, 0, 0, 0, 0, 0, 0, 0, 0, 0, 0, 0, 0, 0, 0, 0, 0, 0, 0, 0, 0, 0]\<rparr>"
  define f' where "f' = f\<lparr>fprs := 1 # fprs f @ [0], tprs := 1 # tprs f @ [0]\<rparr>"
  define f'' where "f'' = f'\<lparr>fprs := 1 # fprs f' @ [0], tprs := 1 # tprs f' @ [0]\<rparr>"
  have c: "\<bar>594::int\<bar> < 2 ^ 53" by simp
  have cf: "projr (calculateFrequencies
              [(''blastn4-545'', dict_set readsPerLevel_init ''100'' 594)])
            = [(''blastn4-545'', f)]"
    unfolding f_def using calculateFrequencies_single [OF c, of "''blastn4-545''"] by simp
  define rest where "rest = map (\<lambda>i. fl (of_int 594 / of_int (594 * (int i + 1)))) [1..<22]"
  have tp: "tprs f = 1 # rest"
    unfolding f_def rest_def by (simp add: upt_rec [of 0 22] fl_1)
  have lr: "length rest = 21" unfolding rest_def by simp
  have fp: "fprs f = [0, 0, 0, 0, 0, 0, 0, 0, 0, 0, 0, 0, 0, 0, 0, 0, 0, 0, 0, 0, 0, 0]" unfolding f_def by simp
  have a: "fl (fl (fl (0 - 1) * fl (1 + 1)) / 2) = - 1" by (simp add: fl_small)
  have i: "fl (- 1) = - 1" by (simp add: fl_small)
  have t1: "trapz (1 # 1 # rest @ [0]) [1, 0, 0, 0, 0, 0, 0, 0, 0, 0, 0, 0, 0, 0, 0, 0, 0, 0, 0, 0, 0, 0, 0, 0] = Inr (- 1)"
    by (rule trapz_zero_fprs [OF _ _ a i]) (simp_all add: lr)
  have t2: "trapz (1 # 1 # 1 # rest @ [0, 0]) [1, 1, 0, 0, 0, 0, 0, 0, 0, 0, 0, 0, 0, 0, 0, 0, 0, 0, 0, 0, 0, 0, 0, 0, 0, 0] = Inr (- 1)"
    by (rule trapz_zero_fprs_again [OF _ _ a i]) (simp_all add: lr)
  have o: "snd (new_frequencies [] [(''blastn4-545'', f)]) = [(''blastn4-545'', scheme_objects 0)]"
    "snd (new_frequencies [] [(''blastn4-545'', f')]) = [(''blastn4-545'', scheme_objects 0)]"
    by simp_all
  have h0: "fst (new_frequencies [] [(''blastn4-545'', f)]) = scheme_lists f"
    and h1: "fst (new_frequencies [] [(''blastn4-545'', f')]) = scheme_lists f'"
    and h2: "fst (new_frequencies [] [(''blastn4-545'', f'')]) = scheme_lists f''"
    by simp_all
  have first: "areaUnderCurve trapz (scheme_lists f) [(''blastn4-545'', scheme_objects 0)]
                 = (scheme_lists f', Inr [(''blastn4-545'', 1)])"
    using areaUnderCurve_new [of "[(''blastn4-545'', f)]" "[]"]
    unfolding o h0 by (simp add: f'_def tp fp lr t1 fl_1)
  have second: "areaUnderCurve trapz (scheme_lists f') [(''blastn4-545'', scheme_objects 0)]
                 = (scheme_lists f'', Inr [(''blastn4-545'', 1)])"
    using areaUnderCurve_new [of "[(''blastn4-545'', f')]" "[]"]
    unfolding o h1 by (simp add: f''_def f'_def tp fp lr t2 fl_1)
  have l0: "scheme_lists f ! 0 = [0, 0, 0, 0, 0, 0, 0, 0, 0, 0, 0, 0, 0, 0, 0, 0, 0, 0, 0, 0, 0, 0]" "length (scheme_lists f ! 1) = 22"
    by (simp_all add: scheme_lists_def fp tp lr)
  have l1: "scheme_lists f' ! 0 = [1, 0, 0, 0, 0, 0, 0, 0, 0, 0, 0, 0, 0, 0, 0, 0, 0, 0, 0, 0, 0, 0, 0, 0]" "length (scheme_lists f' ! 1) = 24"
    by (simp_all add: scheme_lists_def f'_def fp tp lr)
  have l2: "scheme_lists f'' ! 0 = [1, 1, 0, 0, 0, 0, 0, 0, 0, 0, 0, 0, 0, 0, 0, 0, 0, 0, 0, 0, 0, 0, 0, 0, 0, 0]" "length (scheme_lists f'' ! 1) = 26"
    by (simp_all add: scheme_lists_def f''_def f'_def fp tp lr)
  have d: "dict_get [(''blastn4-545'', scheme_objects 0)] ''blastn4-545'' = Some (scheme_objects 0)"
    "dict_get (scheme_objects 0) ''fprs'' = Some 0" "dict_get (scheme_objects 0) ''tprs'' = Some 1"
    by (simp_all add: dict_get_def scheme_objects_def)
  show ?thesis
    unfolding Let_def cf o h0 first fst_conv snd_conv second
    using l0 l1 l2 d by simp
qed

end
